theory Spec2Isabelle
  imports Main "HOL-Library.Multiset"
begin

section \<open>Python values\<close>

text \<open>
  The exceptions that the board code can raise.  A Python function that may raise is
  modelled as a function into \<open>error + 'a\<close>, with \<open>Inl\<close> the raised exception.
\<close>

datatype error =
  AssertionError | ValueError | IndexError | KeyError | TypeError | ZeroDivisionError

text \<open>The module constants: the empty tile and the four move directions.\<close>

definition EMPTY_TILE :: int where "EMPTY_TILE = 0"

definition UP :: string where "UP = ''u''"
definition DOWN :: string where "DOWN = ''d''"
definition LEFT :: string where "LEFT = ''l''"
definition RIGHT :: string where "RIGHT = ''r''"

text \<open>\<open>list.index\<close>: the position of the first occurrence, \<open>ValueError\<close> when absent.\<close>

fun index :: "int list \<Rightarrow> int \<Rightarrow> error + int" where
  "index [] v = Inl ValueError"
| "index (x # xs) v =
     (if x = v then Inr 0
      else (case index xs v of Inl e \<Rightarrow> Inl e | Inr i \<Rightarrow> Inr (i + 1)))"

section \<open>Board\<close>

text \<open>
  The class \<open>Board\<close> has the two slots \<open>_height_and_width\<close> and \<open>_board\<close> (a tuple of
  ints, row-major).
\<close>

record Board =
  height_and_width :: int
  board :: "int list"

definition size_b :: "Board \<Rightarrow> int" where
  "size_b b = (height_and_width b) ^ 2"

definition width :: "Board \<Rightarrow> int" where
  "width b = height_and_width b"

definition height :: "Board \<Rightarrow> int" where
  "height b = height_and_width b"

definition valid_tile_num :: "Board \<Rightarrow> int \<Rightarrow> error + bool" where
  "valid_tile_num b tile_num =
     (if \<not> (-1 < tile_num \<and> tile_num < size_b b) then Inl AssertionError else Inr True)"

definition goal :: "Board \<Rightarrow> Board" where
  "goal b =
     (let size = size_b b
      in \<lparr>height_and_width = width b,
          board = map (\<lambda>i. if i \<noteq> size then i else EMPTY_TILE) [1..size]\<rparr>)"

text \<open>The methods \<open>x\<close> and \<open>y\<close> are \<open>x_coord\<close> and \<open>y_coord\<close> here.\<close>

definition x_coord :: "Board \<Rightarrow> int \<Rightarrow> error + int" where
  "x_coord b tile_num =
     (case valid_tile_num b tile_num of Inl e \<Rightarrow> Inl e
      | Inr _ \<Rightarrow>
          (case index (board b) tile_num of Inl e \<Rightarrow> Inl e
           | Inr i \<Rightarrow> Inr (i mod width b)))"

definition y_coord :: "Board \<Rightarrow> int \<Rightarrow> error + int" where
  "y_coord b tile_num =
     (case valid_tile_num b tile_num of Inl e \<Rightarrow> Inl e
      | Inr _ \<Rightarrow>
          (case index (board b) tile_num of Inl e \<Rightarrow> Inl e
           | Inr tile_idx \<Rightarrow> Inr (if tile_idx = 0 then 0 else tile_idx div width b)))"

definition xy :: "Board \<Rightarrow> int \<Rightarrow> error + (int \<times> int)" where
  "xy b tile_num =
     (case valid_tile_num b tile_num of Inl e \<Rightarrow> Inl e
      | Inr _ \<Rightarrow>
          (case x_coord b tile_num of Inl e \<Rightarrow> Inl e
           | Inr xv \<Rightarrow> (case y_coord b tile_num of Inl e \<Rightarrow> Inl e | Inr yv \<Rightarrow> Inr (xv, yv))))"

definition xy_to_idx :: "Board \<Rightarrow> int \<Rightarrow> int \<Rightarrow> int" where
  "xy_to_idx b xv yv = (width b * yv) + xv"

definition m_dist :: "Board \<Rightarrow> Board \<Rightarrow> int \<Rightarrow> bool \<Rightarrow> error + int" where
  "m_dist b other_board tile_num count_free_tile =
     (case valid_tile_num b tile_num of Inl e \<Rightarrow> Inl e
      | Inr _ \<Rightarrow>
          if (\<not> count_free_tile) \<and> tile_num = EMPTY_TILE then Inr 0
          else
            (case x_coord b tile_num of Inl e \<Rightarrow> Inl e
             | Inr x1 \<Rightarrow>
            (case x_coord other_board tile_num of Inl e \<Rightarrow> Inl e
             | Inr x2 \<Rightarrow>
            (case y_coord b tile_num of Inl e \<Rightarrow> Inl e
             | Inr y1 \<Rightarrow>
            (case y_coord other_board tile_num of Inl e \<Rightarrow> Inl e
             | Inr y2 \<Rightarrow> Inr (\<bar>x1 - x2\<bar> + \<bar>y1 - y2\<bar>))))))"

text \<open>
  The method \<open>__str__\<close>, here \<open>board_str\<close>: the grid as text.  \<open>str_int\<close> is the decimal
  text that an f-string makes of an int.  The second loop takes \<open>(i + 1) % width\<close> for
  every cell, which raises \<open>ZeroDivisionError\<close> when the width is 0.
\<close>

function dec_digits :: "nat \<Rightarrow> string" where
  "dec_digits n =
     (if n < 10 then [char_of (48 + n)]
      else dec_digits (n div 10) @ [char_of (48 + n mod 10)])"
  by pat_completeness auto
termination
  by (relation "measure id") auto

declare dec_digits.simps [simp del]

definition str_int :: "int \<Rightarrow> string" where
  "str_int v = (if v < 0 then CHR ''-'' # dec_digits (nat (- v)) else dec_digits (nat v))"

fun str_loop :: "Board \<Rightarrow> int \<Rightarrow> int \<Rightarrow> int list \<Rightarrow> string \<Rightarrow> error + string" where
  "str_loop b max_tile_len i [] out = Inr out"
| "str_loop b max_tile_len i (tile # rest) out =
     (if width b = 0 then Inl ZeroDivisionError
      else
        (let out1 = (if (i + 1) mod width b = 1 then out @ ''| '' else out);
             tile_str = str_int tile;
             out2 = out1 @ tile_str;
             out3 = out2 @ replicate (nat (max_tile_len - int (length tile_str))) CHR '' '';
             out4 = out3 @ '' '';
             out5 = (if (i + 1) mod width b = 0 then out4 @ ''|'' @ [CHR 0x0A] else out4)
         in str_loop b max_tile_len (i + 1) rest out5))"

definition board_str :: "Board \<Rightarrow> error + string" where
  "board_str b =
     (let max_tile_len = foldl (\<lambda>m v. max m (int (length (str_int v)))) 0 (board b);
          top_n_bottom =
            ''+'' @ replicate (nat (width b * (max_tile_len + 1) + 1)) CHR ''-'' @ ''+'';
          out = top_n_bottom @ [CHR 0x0A]
      in (case str_loop b max_tile_len 0 (board b) out of Inl e \<Rightarrow> Inl e
          | Inr out' \<Rightarrow> Inr (out' @ top_n_bottom)))"

text \<open>The generator expression summed by \<open>sum_m_dists\<close>, tile by tile, left to right.\<close>

fun sum_gen :: "Board \<Rightarrow> Board \<Rightarrow> int list \<Rightarrow> int \<Rightarrow> error + int" where
  "sum_gen b other_board [] acc = Inr acc"
| "sum_gen b other_board (i # is) acc =
     (case m_dist b other_board i False of Inl e \<Rightarrow> Inl e
      | Inr d \<Rightarrow> sum_gen b other_board is (acc + d))"

text \<open>
  \<open>sum_m_dists\<close> asserts that the sizes are equal.  When the assertion fails, Python
  builds its message first, which formats this board and then the other one with
  \<open>__str__\<close>; what that raises replaces the \<open>AssertionError\<close>.
\<close>

definition sum_m_dists :: "Board \<Rightarrow> Board \<Rightarrow> error + int" where
  "sum_m_dists b other_board =
     (if size_b b \<noteq> size_b other_board
      then (case board_str b of Inl e \<Rightarrow> Inl e
            | Inr _ \<Rightarrow>
                (case board_str other_board of Inl e \<Rightarrow> Inl e
                 | Inr _ \<Rightarrow> Inl AssertionError))
      else sum_gen b other_board [0..size_b b - 1] 0)"

section \<open>Counting inversions by merging\<close>

text \<open>
  The \<open>while\<close> loop of \<open>merge_count\<close>, with its state: the two input lists, which are
  consumed from the front, the output \<open>S\<close> and the counter \<open>c\<close>.
\<close>

fun merge_loop :: "int list \<Rightarrow> int list \<Rightarrow> int list \<Rightarrow> int \<Rightarrow> int list \<times> int" where
  "merge_loop [] [] S c = (S, c)"
| "merge_loop (a # A) [] S c = merge_loop A [] (S @ [a]) c"
| "merge_loop [] (b # B) S c = merge_loop [] B (S @ [b]) c"
| "merge_loop (a # A) (b # B) S c =
     (if a \<le> b then merge_loop A (b # B) (S @ [a]) c
      else merge_loop (a # A) B (S @ [b]) (c + int (length (a # A))))"

definition merge_count :: "int list \<Rightarrow> int list \<Rightarrow> int list \<times> int" where
  "merge_count A B = merge_loop A B [] 0"

function count_sort :: "int list \<Rightarrow> int list \<times> int" where
  "count_sort L =
     (let half = length L div 2
      in if length L = 0 \<or> half = 0 then (L, 0)
         else
           (case count_sort (take half L) of (L1, c1) \<Rightarrow>
           (case count_sort (drop half L) of (L2, c2) \<Rightarrow>
           (case merge_count L1 L2 of (L', c) \<Rightarrow> (L', c + c1 + c2)))))"
  by pat_completeness auto
termination
  by (relation "measure length") auto

declare count_sort.simps [simp del]

section \<open>Solvability and moves\<close>

definition solvable :: "Board \<Rightarrow> error + bool" where
  "solvable b =
     (let brd = map (\<lambda>v. if v \<noteq> EMPTY_TILE then v else size_b b + 1) (board b);
          inv_cnt = snd (count_sort brd)
      in (case xy b EMPTY_TILE of Inl e \<Rightarrow> Inl e
          | Inr (xv, yv) \<Rightarrow>
              (let dist = \<bar>xv - (width b - 1)\<bar> + \<bar>yv - (height b - 1)\<bar>
               in Inr ((inv_cnt + dist) mod 2 = 0))))"

text \<open>
  \<open>move_tile\<close> returns \<open>None\<close>, the receiver or a new board, and may replace the
  receiver's tuple.  The model returns the pair of the returned value and the receiver
  after the call.
\<close>

definition move_tile :: "Board \<Rightarrow> string \<Rightarrow> bool \<Rightarrow> error + (Board option \<times> Board)" where
  "move_tile b direction new =
     (case xy b EMPTY_TILE of Inl e \<Rightarrow> Inl e
      | Inr (old_x, old_y) \<Rightarrow>
          (let xv = (if direction = LEFT then old_x - 1
                     else if direction = RIGHT then old_x + 1 else old_x);
               yv = (if direction = LEFT \<or> direction = RIGHT then old_y
                     else if direction = UP then old_y - 1
                     else if direction = DOWN then old_y + 1 else old_y)
           in if \<not> (-1 < xv \<and> xv < width b \<and> -1 < yv \<and> yv < height b)
              then Inr (None, b)
              else
                (let idx = xy_to_idx b xv yv;
                     old_idx = xy_to_idx b old_x old_y;
                     n = int (length (board b))
                 in if \<not> (-n \<le> idx \<and> idx < n \<and> -n \<le> old_idx \<and> old_idx < n)
                    then Inl IndexError
                    else
                      (let i = nat (if idx < 0 then idx + n else idx);
                           j = nat (if old_idx < 0 then old_idx + n else old_idx);
                           vi = board b ! i;
                           vj = board b ! j;
                           new_board = ((board b)[i := vj])[j := vi]
                       in if new
                          then Inr (Some \<lparr>height_and_width = width b, board = new_board\<rparr>, b)
                          else Inr (Some (b\<lparr>board := new_board\<rparr>),
                                    b\<lparr>board := new_board\<rparr>)))))"

text \<open>
  \<open>successors\<close> builds a dict in the order UP, DOWN, LEFT, RIGHT; it is an association
  list in insertion order here.
\<close>

fun successors_loop :: "Board \<Rightarrow> string list \<Rightarrow> (string \<times> Board) list \<Rightarrow>
    error + (string \<times> Board) list" where
  "successors_loop b [] out = Inr out"
| "successors_loop b (direction # ds) out =
     (case move_tile b direction True of Inl e \<Rightarrow> Inl e
      | Inr (None, _) \<Rightarrow> successors_loop b ds out
      | Inr (Some new, _) \<Rightarrow> successors_loop b ds (out @ [(direction, new)]))"

definition successors :: "Board \<Rightarrow> error + (string \<times> Board) list" where
  "successors b = successors_loop b [UP, DOWN, LEFT, RIGHT] []"

definition board_eq :: "Board \<Rightarrow> Board \<Rightarrow> bool" where
  "board_eq a b = (board a = board b)"

definition solved :: "Board \<Rightarrow> bool" where
  "solved b = board_eq b (goal b)"

section \<open>The solver\<close>

text \<open>The named tuples \<open>Item\<close> and \<open>Move\<close>.  A direction is a string or \<open>None\<close>.\<close>

record Item =
  item_f :: int
  item_h :: int
  item_g :: int
  item_board :: Board
  item_direction :: "string option"
  item_parent_index :: int

record Move =
  move_direction :: "string option"
  move_board :: Board

text \<open>
  Python compares tuples (and strings) lexicographically: the first position where the
  two differ decides.  Boards are equal when their tuples are (\<open>__eq__\<close>) and are
  ordered by their tuples (\<open>__lt__\<close>).
\<close>

fun lex_less :: "('a::linorder) list \<Rightarrow> 'a list \<Rightarrow> bool" where
  "lex_less [] [] = False"
| "lex_less [] (b # bs) = True"
| "lex_less (a # as) [] = False"
| "lex_less (a # as) (b # bs) = (if a = b then lex_less as bs else a < b)"

definition board_lt :: "Board \<Rightarrow> Board \<Rightarrow> bool" where
  "board_lt a b = lex_less (board a) (board b)"

definition str_less :: "string \<Rightarrow> string \<Rightarrow> bool" where
  "str_less s t = lex_less (map (of_char :: char \<Rightarrow> nat) s) (map of_char t)"

text \<open>
  \<open>item_less a b\<close> is \<open>a < b\<close> on items, the comparison the heap uses.  Comparing
  \<open>None\<close> with a string raises \<open>TypeError\<close>.
\<close>

definition item_less :: "Item \<Rightarrow> Item \<Rightarrow> error + bool" where
  "item_less a b =
     (if item_f a \<noteq> item_f b then Inr (item_f a < item_f b)
      else if item_h a \<noteq> item_h b then Inr (item_h a < item_h b)
      else if item_g a \<noteq> item_g b then Inr (item_g a < item_g b)
      else if \<not> board_eq (item_board a) (item_board b)
        then Inr (board_lt (item_board a) (item_board b))
      else if item_direction a \<noteq> item_direction b then
        (case (item_direction a, item_direction b) of
           (Some s, Some t) \<Rightarrow> Inr (str_less s t)
         | _ \<Rightarrow> Inl TypeError)
      else Inr (item_parent_index a < item_parent_index b))"

text \<open>
  What the hash and the equality of an item see: the fields, with the board's tuple for
  the board.  It is the key of the dict \<open>idx_by_item\<close>.
\<close>

type_synonym item_key = "int \<times> int \<times> int \<times> int list \<times> string option \<times> int"

definition item_key :: "Item \<Rightarrow> item_key" where
  "item_key a =
     (item_f a, item_h a, item_g a, board (item_board a), item_direction a,
      item_parent_index a)"

text \<open>
  The priority queue \<open>open\<close> of \<open>heapq\<close> is modelled by its contents: \<open>heappush\<close> adds
  an item and \<open>heappop\<close> removes and returns the smallest one.  The items that are in
  the queue together differ in their boards, and \<open>item_less\<close> orders such items
  totally, so the smallest item does not depend on how the heap is laid out in the list.
  \<open>least\<close> finds it with the comparison of the items, and passes on what a comparison
  raises.
\<close>

definition heappush :: "Item list \<Rightarrow> Item \<Rightarrow> Item list" where
  "heappush opn a = opn @ [a]"

fun least :: "Item \<Rightarrow> Item list \<Rightarrow> error + Item" where
  "least m [] = Inr m"
| "least m (a # as) =
     (case item_less a m of Inl e \<Rightarrow> Inl e
      | Inr lt \<Rightarrow> least (if lt then a else m) as)"

definition heappop :: "Item list \<Rightarrow> error + (Item \<times> Item list)" where
  "heappop opn =
     (case opn of [] \<Rightarrow> Inl IndexError
      | a # as \<Rightarrow>
          (case least a as of Inl e \<Rightarrow> Inl e
           | Inr m \<Rightarrow> Inr (m, remove1 m opn)))"

text \<open>The local function \<open>item\<close> of \<open>solve\<close>; the goal board it closes over is \<open>gl\<close>.\<close>

definition item :: "Board \<Rightarrow> int \<Rightarrow> string option \<Rightarrow> Board \<Rightarrow> int \<Rightarrow> error + Item" where
  "item gl g direction b parent_index =
     (case sum_m_dists b gl of Inl e \<Rightarrow> Inl e
      | Inr h \<Rightarrow>
          Inr \<lparr>item_f = g + h, item_h = h, item_g = g, item_board = b,
               item_direction = direction, item_parent_index = parent_index\<rparr>)"

text \<open>The local variables of \<open>solve\<close> that its loop changes.\<close>

record solve_state =
  st_open :: "Item list"
  st_item_by_idx :: "int \<rightharpoonup> Item"
  st_idx_by_item :: "item_key \<rightharpoonup> int"
  st_visited :: "int list set"
  st_item_index :: int
  st_max_queue_length :: int

datatype solve_result = Path "Move list" | PathAndMax "Move list" int | NoResult

datatype step_result = Return solve_result | Continue solve_state

text \<open>The traceback loop: follow the parent indices until the start item.\<close>

partial_function (option) traceback ::
    "(int \<rightharpoonup> Item) \<Rightarrow> Item \<Rightarrow> Item list \<Rightarrow> (error + Item list) option" where
  "traceback item_by_idx start_item path =
     (if item_key (last path) \<noteq> item_key start_item
      then (case item_by_idx (item_parent_index (last path)) of
              None \<Rightarrow> Some (Inl KeyError)
            | Some p \<Rightarrow> traceback item_by_idx start_item (path @ [p]))
      else Some (Inr path))"

text \<open>The \<open>for\<close> loop over the successors of the current board.\<close>

fun add_successors :: "Board \<Rightarrow> int \<Rightarrow> int \<Rightarrow> (string \<times> Board) list \<Rightarrow> solve_state \<Rightarrow>
    error + solve_state" where
  "add_successors gl g curr_idx [] s = Inr s"
| "add_successors gl g curr_idx ((direction, successor) # rest) s =
     (if board successor \<in> st_visited s then add_successors gl g curr_idx rest s
      else
        (let successor_idx = st_item_index s
         in (case item gl g (Some direction) successor curr_idx of Inl e \<Rightarrow> Inl e
             | Inr successor_item \<Rightarrow>
                 add_successors gl g curr_idx rest
                   (s\<lparr>st_visited := insert (board successor) (st_visited s),
                      st_item_index := st_item_index s + 1,
                      st_idx_by_item :=
                        (st_idx_by_item s)(item_key successor_item \<mapsto> successor_idx),
                      st_item_by_idx :=
                        (st_item_by_idx s)(successor_idx \<mapsto> successor_item),
                      st_open := heappush (st_open s) successor_item\<rparr>))))"

text \<open>One iteration of the main \<open>while\<close> loop, entered with a non-empty queue.\<close>

definition solve_step :: "Board \<Rightarrow> Item \<Rightarrow> bool \<Rightarrow> solve_state \<Rightarrow>
    (error + step_result) option" where
  "solve_step gl start_item give_max_queue_length s =
     (case heappop (st_open s) of Inl e \<Rightarrow> Some (Inl e)
      | Inr (curr_item, opn) \<Rightarrow>
          (let curr_board = item_board curr_item;
               g = item_g curr_item + 1
           in (case st_idx_by_item s (item_key curr_item) of
                 None \<Rightarrow> Some (Inl KeyError)
               | Some curr_idx \<Rightarrow>
                   if board_eq curr_board gl
                   then
                     (case traceback (st_item_by_idx s) start_item [curr_item] of
                        None \<Rightarrow> None
                      | Some (Inl e) \<Rightarrow> Some (Inl e)
                      | Some (Inr path) \<Rightarrow>
                          (let moves =
                                 rev (map (\<lambda>i. \<lparr>move_direction = item_direction i,
                                                 move_board = item_board i\<rparr>) path)
                           in if give_max_queue_length
                              then Some (Inr (Return (PathAndMax moves (st_max_queue_length s))))
                              else Some (Inr (Return (Path moves)))))
                   else
                     (case successors curr_board of Inl e \<Rightarrow> Some (Inl e)
                      | Inr succs \<Rightarrow>
                          (case add_successors gl g curr_idx succs (s\<lparr>st_open := opn\<rparr>) of
                             Inl e \<Rightarrow> Some (Inl e)
                           | Inr s' \<Rightarrow>
                               Some (Inr (Continue
                                 (if give_max_queue_length
                                  then s'\<lparr>st_max_queue_length :=
                                            max (st_max_queue_length s')
                                                (int (length (st_open s')))\<rparr>
                                  else s'))))))))"

text \<open>
  The main loop.  \<open>None\<close> is a loop that runs forever; when the queue runs empty the
  Python function falls off its end and returns \<open>None\<close>, which is \<open>NoResult\<close>.
\<close>

partial_function (option) solve_loop :: "Board \<Rightarrow> Item \<Rightarrow> bool \<Rightarrow> solve_state \<Rightarrow>
    (error + solve_result) option" where
  "solve_loop gl start_item give_max_queue_length s =
     (if \<not> (length (st_open s) > 0) then Some (Inr NoResult)
      else
        (case solve_step gl start_item give_max_queue_length s of
           None \<Rightarrow> None
         | Some (Inl e) \<Rightarrow> Some (Inl e)
         | Some (Inr (Return r)) \<Rightarrow> Some (Inr r)
         | Some (Inr (Continue s')) \<Rightarrow> solve_loop gl start_item give_max_queue_length s'))"

text \<open>The state at the loop's entry: the start item is in the queue and has index 0.\<close>

definition init_state :: "Item \<Rightarrow> bool \<Rightarrow> solve_state" where
  "init_state start_item give_max_queue_length =
     \<lparr>st_open = heappush [] start_item,
      st_item_by_idx = Map.empty(0 \<mapsto> start_item),
      st_idx_by_item = Map.empty(item_key start_item \<mapsto> 0),
      st_visited = {},
      st_item_index = 1,
      st_max_queue_length = (if give_max_queue_length then 1 else 0)\<rparr>"

text \<open>
  The statements of \<open>solve\<close> after its two guards: the search itself.  The message of
  the first guard formats the board with \<open>__str__\<close>; the message of the second one
  holds the width and the height only.
\<close>

definition solve_search :: "Board \<Rightarrow> bool \<Rightarrow> (error + solve_result) option" where
  "solve_search b give_max_queue_length =
     (case item (goal b) 0 None b (-1) of Inl e \<Rightarrow> Some (Inl e)
      | Inr start_item \<Rightarrow>
          solve_loop (goal b) start_item give_max_queue_length
            (init_state start_item give_max_queue_length))"

definition solve :: "Board \<Rightarrow> bool \<Rightarrow> bool \<Rightarrow> (error + solve_result) option" where
  "solve b ignore_warning give_max_queue_length =
     (case solvable b of Inl e \<Rightarrow> Some (Inl e)
      | Inr ok \<Rightarrow>
          if \<not> ok
          then (case board_str b of Inl e \<Rightarrow> Some (Inl e)
                | Inr _ \<Rightarrow> Some (Inl AssertionError))
          else if (\<not> ignore_warning) \<and> (width b > 3 \<or> height b > 3)
            then Some (Inl AssertionError)
          else solve_search b give_max_queue_length)"

section \<open>Notions of the specification\<close>

text \<open>
  A board of the data model: side length \<open>N \<ge> 1\<close> and cells that are a permutation of
  \<open>0, \<dots>, N\<^sup>2 - 1\<close>.
\<close>

definition valid_board :: "Board \<Rightarrow> bool" where
  "valid_board b = (0 < height_and_width b \<and> sort (board b) = [0..size_b b - 1])"

text \<open>The number of inversions of a list: the index pairs \<open>i < j\<close> with \<open>L[i] > L[j]\<close>.\<close>

definition inversions :: "int list \<Rightarrow> nat" where
  "inversions L =
     length (filter (\<lambda>(i, j). i < j \<and> L ! i > L ! j)
       (List.product [0..<length L] [0..<length L]))"

text \<open>The position of the first occurrence of a value in a list that contains it.\<close>

definition pos_of :: "int list \<Rightarrow> int \<Rightarrow> nat" where
  "pos_of cs v = length (takeWhile (\<lambda>c. c \<noteq> v) cs)"

text \<open>
  The grid distance from the empty slot to the bottom-right corner cell, for a board
  with the cells in row-major order.
\<close>

definition corner_distance :: "Board \<Rightarrow> int" where
  "corner_distance b =
     (let n = height_and_width b; i = int (pos_of (board b) EMPTY_TILE)
      in \<bar>i mod n - (n - 1)\<bar> + \<bar>i div n - (n - 1)\<bar>)"

text \<open>
  A sequence of legal moves, each applied to the board that the move before returned
  (in place or as a new board): \<open>None\<close> when one of the moves is refused or raises.
\<close>

fun apply_moves :: "bool \<Rightarrow> Board \<Rightarrow> string list \<Rightarrow> Board option" where
  "apply_moves new b [] = Some b"
| "apply_moves new b (d # ds) =
     (case move_tile b d new of
        Inr (Some b', _) \<Rightarrow> apply_moves new b' ds
      | _ \<Rightarrow> None)"

text \<open>
  A move \<open>m\<close> of a solution reflects one legal move applied to the board \<open>b\<close>: it
  carries a direction, and moving the empty slot of \<open>b\<close> in that direction gives the
  board of \<open>m\<close>.
\<close>

definition reflects_move :: "Board \<Rightarrow> Move \<Rightarrow> bool" where
  "reflects_move b m =
     (case move_direction m of
        None \<Rightarrow> False
      | Some d \<Rightarrow>
          (case move_tile b d True of
             Inr (Some b', _) \<Rightarrow> board_eq b' (move_board m)
           | _ \<Rightarrow> False))"

section \<open>Auxiliary functions of the proofs\<close>

text \<open>
  The inversions of a list counted element by element, the inversions between two
  lists, the merge of two lists as a function, and the set of the inverted index pairs.
\<close>

fun inv_count :: "int list \<Rightarrow> nat" where
  "inv_count [] = 0"
| "inv_count (a # as) = length (filter (\<lambda>b. b < a) as) + inv_count as"

fun cross :: "int list \<Rightarrow> int list \<Rightarrow> nat" where
  "cross [] ys = 0"
| "cross (a # as) ys = length (filter (\<lambda>b. b < a) ys) + cross as ys"

fun merged :: "int list \<Rightarrow> int list \<Rightarrow> int list" where
  "merged [] [] = []"
| "merged (a # A) [] = a # merged A []"
| "merged [] (b # B) = b # merged [] B"
| "merged (a # A) (b # B) =
     (if a \<le> b then a # merged A (b # B) else b # merged (a # A) B)"

definition inv_set :: "int list \<Rightarrow> (nat \<times> nat) set" where
  "inv_set L = {(i, j). i < j \<and> j < length L \<and> L ! j < L ! i}"

text \<open>The move that the solver makes of an item of the path.\<close>

definition mk_move :: "Item \<Rightarrow> Move" where
  "mk_move i = \<lparr>move_direction = item_direction i, move_board = item_board i\<rparr>"

text \<open>
  The invariant of the main loop of \<open>solve\<close> that the proofs use.  An item is linked
  when it has the key of the start item, or its parent index is in \<open>item_by_idx\<close> and
  one legal move in its direction leads from the parent's board to its board.  Every
  item of \<open>item_by_idx\<close> has an index below the next one, a board of side length \<open>w\<close>,
  and is linked; so is every item of the queue; and every index of \<open>idx_by_item\<close> is
  the index of an item with that key.
\<close>

definition linked :: "Item \<Rightarrow> (int \<rightharpoonup> Item) \<Rightarrow> Item \<Rightarrow> bool" where
  "linked st ibi it =
     (item_key it = item_key st \<or>
      (case ibi (item_parent_index it) of
         None \<Rightarrow> False
       | Some par \<Rightarrow> reflects_move (item_board par) (mk_move it)))"

definition solve_inv :: "Item \<Rightarrow> int \<Rightarrow> solve_state \<Rightarrow> bool" where
  "solve_inv st w s =
     ((\<forall>k it. st_item_by_idx s k = Some it \<longrightarrow>
         k < st_item_index s \<and> height_and_width (item_board it) = w \<and>
         linked st (st_item_by_idx s) it) \<and>
      (\<forall>it \<in> set (st_open s).
         height_and_width (item_board it) = w \<and> linked st (st_item_by_idx s) it) \<and>
      (\<forall>key k. st_idx_by_item s key = Some k \<longrightarrow>
         (\<exists>it. st_item_by_idx s k = Some it \<and> item_key it = key)))"

definition follows :: "Item \<Rightarrow> Item \<Rightarrow> bool" where
  "follows c par = reflects_move (item_board par) (mk_move c)"

text \<open>
  The items that the \<open>for\<close> loop over the successors pushes, as a function of the
  successors and of the visited set; the cells of an item's board; and the state after
  one successor has been pushed.
\<close>

fun new_items :: "Board \<Rightarrow> int \<Rightarrow> int \<Rightarrow> (string \<times> Board) list \<Rightarrow> int list set \<Rightarrow> Item list" where
  "new_items gl g ci [] vis = []"
| "new_items gl g ci ((d, b') # rest) vis =
     (if board b' \<in> vis then new_items gl g ci rest vis
      else (case item gl g (Some d) b' ci of
              Inl e \<Rightarrow> []
            | Inr a \<Rightarrow> a # new_items gl g ci rest (insert (board b') vis)))"

definition cells_of :: "Item \<Rightarrow> int list" where
  "cells_of a = board (item_board a)"

definition with_successor :: "solve_state \<Rightarrow> Board \<Rightarrow> Item \<Rightarrow> solve_state" where
  "with_successor s b' a =
     s\<lparr>st_visited := insert (board b') (st_visited s),
        st_item_index := st_item_index s + 1,
        st_idx_by_item := (st_idx_by_item s)(item_key a \<mapsto> st_item_index s),
        st_item_by_idx := (st_item_by_idx s)(st_item_index s \<mapsto> a),
        st_open := heappush (st_open s) a\<rparr>"

text \<open>
  The invariant of the main loop on a board \<open>b\<close> of the data model: besides
  \<open>solve_inv\<close>, every item of the queue has a board of the data model, is a key of
  \<open>idx_by_item\<close> and is the start item or has a parent index below the next index; the
  queue is the start item alone or holds items with a direction only; the indices of
  \<open>item_by_idx\<close> are those from 0 to the next one, 0 is the start item, and parent
  indices are smaller than the index; the visited boards are permutations of \<open>b\<close>.
\<close>

definition search_inv :: "Board \<Rightarrow> Item \<Rightarrow> solve_state \<Rightarrow> bool" where
  "search_inv b st s =
     (solve_inv st (height_and_width b) s \<and>
      (\<forall>a \<in> set (st_open s). valid_board (item_board a) \<and>
          st_idx_by_item s (item_key a) \<noteq> None \<and>
          (a = st \<or> (0 \<le> item_parent_index a \<and> item_parent_index a < st_item_index s))) \<and>
      (st_open s = [st] \<or> (\<forall>a \<in> set (st_open s). item_direction a \<noteq> None)) \<and>
      (\<forall>k. (st_item_by_idx s k \<noteq> None) = (0 \<le> k \<and> k < st_item_index s)) \<and>
      st_item_by_idx s 0 = Some st \<and>
      (\<forall>k a. st_item_by_idx s k = Some a \<longrightarrow> 0 < k \<longrightarrow>
          0 \<le> item_parent_index a \<and> item_parent_index a < k) \<and>
      st_visited s \<subseteq> {cs. mset cs = mset (board b)})"

text \<open>The measure that decreases with every iteration of the main loop.\<close>

definition search_measure :: "Board \<Rightarrow> solve_state \<Rightarrow> nat" where
  "search_measure b s =
     2 * card ({cs. mset cs = mset (board b)} - st_visited s) + length (st_open s)"

text \<open>
  The boards generated so far are the start board and the visited ones.  Each of them
  is in the queue or has all the boards that one move makes of it among the generated
  ones; the goal board, once generated, is in the queue.
\<close>

definition closed_inv :: "Board \<Rightarrow> Board \<Rightarrow> solve_state \<Rightarrow> bool" where
  "closed_inv b gl s =
     (cells_of ` set (st_open s) \<subseteq> insert (board b) (st_visited s) \<and>
      (\<forall>c \<in> insert (board b) (st_visited s).
          c \<in> cells_of ` set (st_open s) \<or>
          (\<forall>d b' r. move_tile \<lparr>height_and_width = height_and_width b, board = c\<rparr> d True
                       = Inr (Some b', r) \<longrightarrow>
                    board b' \<in> insert (board b) (st_visited s))) \<and>
      (board gl \<in> insert (board b) (st_visited s) \<longrightarrow>
         board gl \<in> cells_of ` set (st_open s)))"

declare traceback.simps [code]
declare solve_loop.simps [code]

section \<open>Refused moves\<close>

text \<open>
  Claim C10.  When the empty slot is at \<open>(ox, oy)\<close> and the direction points out of
  the grid (left in column 0, right in the last column, up in row 0, down in the last
  row), \<open>move_tile\<close> returns \<open>None\<close> and the receiver is unchanged, in-place mode or not.
\<close>

theorem move_tile_outside_grid:
  assumes "xy b EMPTY_TILE = Inr (ox, oy)"
    and "(d = LEFT \<and> ox = 0) \<or> (d = RIGHT \<and> ox = width b - 1) \<or>
         (d = UP \<and> oy = 0) \<or> (d = DOWN \<and> oy = height b - 1)"
  shows "move_tile b d new = Inr (None, b)"
  using assms by (auto simp: move_tile_def LEFT_def RIGHT_def UP_def DOWN_def)

lemma xy_goal3:
  "xy \<lparr>height_and_width = 3, board = [1,2,3,4,5,6,7,8,0]\<rparr> EMPTY_TILE = Inr (2, 2)"
  by (simp add: xy_def x_coord_def y_coord_def valid_tile_num_def size_b_def width_def
      EMPTY_TILE_def)

theorem move_tile_outside_grid_witness:
  "xy \<lparr>height_and_width = 3, board = [1,2,3,4,5,6,7,8,0]\<rparr> EMPTY_TILE = Inr (2, 2) \<and>
   move_tile \<lparr>height_and_width = 3, board = [1,2,3,4,5,6,7,8,0]\<rparr> RIGHT False =
     Inr (None, \<lparr>height_and_width = 3, board = [1,2,3,4,5,6,7,8,0]\<rparr>) \<and>
   move_tile \<lparr>height_and_width = 3, board = [1,2,3,4,5,6,7,8,0]\<rparr> DOWN False =
     Inr (None, \<lparr>height_and_width = 3, board = [1,2,3,4,5,6,7,8,0]\<rparr>)"
  using move_tile_outside_grid [OF xy_goal3, of RIGHT False]
        move_tile_outside_grid [OF xy_goal3, of DOWN False] xy_goal3
  by (simp add: width_def height_def)

section \<open>The merge-based inversion count\<close>

lemma cross_append1: "cross (xs @ xs') ys = cross xs ys + cross xs' ys"
  by (induction xs) auto

lemma cross_append2: "cross xs (ys @ ys') = cross xs ys + cross xs ys'"
  by (induction xs) auto

lemma cross_Nil2 [simp]: "cross xs [] = 0"
  by (induction xs) auto

lemma cross_Cons2: "cross xs (b # ys) = length (filter (\<lambda>a. b < a) xs) + cross xs ys"
  by (induction xs) auto

lemma inv_count_append: "inv_count (xs @ ys) = inv_count xs + inv_count ys + cross xs ys"
  by (induction xs) auto

lemma cross_sum_list: "cross xs ys = sum_list (map (\<lambda>a. size (filter_mset (\<lambda>b. b < a) (mset ys))) xs)"
  by (induction xs) (auto simp flip: mset_filter)

lemma cross_mset: 
  assumes "mset xs = mset xs'" "mset ys = mset ys'"
  shows "cross xs ys = cross xs' ys'"
proof -
  have "cross xs ys = sum_mset (image_mset (\<lambda>a. size (filter_mset (\<lambda>b. b < a) (mset ys))) (mset xs))"
    by (simp add: cross_sum_list flip: sum_mset_sum_list)
  also have "\<dots> = sum_mset (image_mset (\<lambda>a. size (filter_mset (\<lambda>b. b < a) (mset ys'))) (mset xs'))"
    using assms by simp
  also have "\<dots> = cross xs' ys'"
    by (simp add: cross_sum_list flip: sum_mset_sum_list)
  finally show ?thesis .
qed

lemma mset_merged: "mset (merged A B) = mset A + mset B"
  by (induction A B rule: merged.induct) auto

lemma set_merged: "set (merged A B) = set A \<union> set B"
  by (induction A B rule: merged.induct) auto

lemma sorted_merged: "sorted A \<Longrightarrow> sorted B \<Longrightarrow> sorted (merged A B)"
  by (induction A B rule: merged.induct) (auto simp: set_merged)

lemma filter_less_sorted_Nil:
  "sorted (b # B) \<Longrightarrow> a \<le> b \<Longrightarrow> filter (\<lambda>b'. b' < a) (b # B) = []"
  by (auto simp: filter_empty_conv)

lemma filter_greater_sorted_all:
  "sorted (a # A) \<Longrightarrow> b < a \<Longrightarrow> filter (\<lambda>a'. b < a') (a # A) = a # A"
  by (auto simp: filter_id_conv)

lemma merge_loop_correct:
  "sorted A \<Longrightarrow> sorted B \<Longrightarrow>
   merge_loop A B S c = (S @ merged A B, c + int (cross A B))"
proof (induction A B S c rule: merge_loop.induct)
  case (1 S c)
  then show ?case by simp
next
  case (2 a A S c)
  then show ?case by simp
next
  case (3 b B S c)
  then show ?case by simp
next
  case (4 a A b B S c)
  show ?case
  proof (cases "a \<le> b")
    case True
    have "length (filter (\<lambda>b'. b' < a) (b # B)) = 0"
      using filter_less_sorted_Nil [OF "4.prems"(2) True] by simp
    then have "cross (a # A) (b # B) = cross A (b # B)"
      by simp
    moreover have "merge_loop A (b # B) (S @ [a]) c =
        ((S @ [a]) @ merged A (b # B), c + int (cross A (b # B)))"
      using "4.IH"(1) [OF True] "4.prems" by simp
    ultimately show ?thesis using True by simp
  next
    case False
    then have ba: "b < a" by simp
    have "length (filter (\<lambda>a'. b < a') (a # A)) = length (a # A)"
      using filter_greater_sorted_all [OF "4.prems"(1) ba] by simp
    then have "cross (a # A) (b # B) = length (a # A) + cross (a # A) B"
      by (simp only: cross_Cons2)
    moreover have "merge_loop (a # A) B (S @ [b]) (c + int (length (a # A))) =
        ((S @ [b]) @ merged (a # A) B, c + int (length (a # A)) + int (cross (a # A) B))"
      using "4.IH"(2) [OF False] "4.prems" by simp
    ultimately show ?thesis using False by simp
  qed
qed

lemma count_sort_correct: "count_sort L = (sort L, int (inv_count L))"
proof (induction L rule: count_sort.induct)
  case (1 L)
  define half where "half = length L div 2"
  show ?case
  proof (cases "length L = 0 \<or> half = 0")
    case True
    then have "length L \<le> 1" unfolding half_def by auto
    then have "L = [] \<or> (\<exists>a. L = [a])"
      by (cases L) auto
    then show ?thesis
      by (auto simp: count_sort.simps)
  next
    case False
    define L1 where "L1 = take half L"
    define L2 where "L2 = drop half L"
    have L: "L = L1 @ L2" by (simp add: L1_def L2_def)
    have c1: "count_sort L1 = (sort L1, int (inv_count L1))"
      using "1.IH"(1) [of half] False unfolding half_def L1_def by simp
    have c2: "count_sort L2 = (sort L2, int (inv_count L2))"
      using "1.IH"(2) [of half "sort L1" "int (inv_count L1)"] False c1
      unfolding half_def L1_def L2_def by simp
    have m: "merge_count (sort L1) (sort L2) =
        (merged (sort L1) (sort L2), int (cross (sort L1) (sort L2)))"
      unfolding merge_count_def using merge_loop_correct [of "sort L1" "sort L2" "[]" 0]
      by simp
    have cr: "cross (sort L1) (sort L2) = cross L1 L2"
      by (rule cross_mset) simp_all
    have srt: "merged (sort L1) (sort L2) = sort L"
      by (rule properties_for_sort [symmetric]) (simp_all add: mset_merged L sorted_merged)
    have "count_sort L = (merged (sort L1) (sort L2),
        int (cross (sort L1) (sort L2)) + int (inv_count L1) + int (inv_count L2))"
      using False c1 c2 m unfolding half_def L1_def L2_def
      by (subst count_sort.simps) (simp add: Let_def)
    then show ?thesis
      using cr srt by (simp add: L inv_count_append)
  qed
qed

lemma inv_set_subset: "inv_set L \<subseteq> {..<length L} \<times> {..<length L}"
  by (auto simp: inv_set_def)

lemma finite_inv_set: "finite (inv_set L)"
  by (rule finite_subset [OF inv_set_subset]) simp

lemma inversions_card: "inversions L = card (inv_set L)"
proof -
  have "inversions L = card ({p. case p of (i, j) \<Rightarrow> i < j \<and> L ! i > L ! j} \<inter>
      set (List.product [0..<length L] [0..<length L]))"
    unfolding inversions_def by (rule distinct_length_filter) (simp add: distinct_product)
  also have "{p. case p of (i, j) \<Rightarrow> i < j \<and> L ! i > L ! j} \<inter>
      set (List.product [0..<length L] [0..<length L]) = inv_set L"
    by (auto simp: inv_set_def)
  finally show ?thesis .
qed

lemma inv_set_Cons:
  "inv_set (a # as) =
     (\<lambda>j. (0, Suc j)) ` {j. j < length as \<and> as ! j < a} \<union>
     (\<lambda>(i, j). (Suc i, Suc j)) ` inv_set as"
proof (intro set_eqI iffI)
  fix p assume "p \<in> inv_set (a # as)"
  then obtain i j where p: "p = (i, j)" and ij: "i < j" "j < Suc (length as)"
      "(a # as) ! j < (a # as) ! i"
    by (auto simp: inv_set_def)
  from ij obtain j' where j': "j = Suc j'" by (cases j) auto
  show "p \<in> (\<lambda>j. (0, Suc j)) ` {j. j < length as \<and> as ! j < a} \<union>
     (\<lambda>(i, j). (Suc i, Suc j)) ` inv_set as"
  proof (cases i)
    case 0
    then show ?thesis using p ij j' by auto
  next
    case (Suc i')
    then have "(i', j') \<in> inv_set as" using ij j' by (auto simp: inv_set_def)
    then show ?thesis using p Suc j' by force
  qed
next
  fix p assume "p \<in> (\<lambda>j. (0, Suc j)) ` {j. j < length as \<and> as ! j < a} \<union>
     (\<lambda>(i, j). (Suc i, Suc j)) ` inv_set as"
  then show "p \<in> inv_set (a # as)"
    by (auto simp: inv_set_def)
qed

lemma card_inv_set: "card (inv_set L) = inv_count L"
proof (induction L)
  case Nil
  then show ?case by (simp add: inv_set_def)
next
  case (Cons a as)
  let ?A = "(\<lambda>j. (0::nat, Suc j)) ` {j. j < length as \<and> as ! j < a}"
  let ?B = "(\<lambda>(i, j). (Suc i, Suc j)) ` inv_set as"
  have fA: "finite ?A" by simp
  have fB: "finite ?B" using finite_inv_set by simp
  have dj: "?A \<inter> ?B = {}" by auto
  have cA: "card ?A = length (filter (\<lambda>b. b < a) as)"
    by (subst card_image) (auto simp: inj_on_def length_filter_conv_card)
  have cB: "card ?B = card (inv_set as)"
    by (rule card_image) (auto simp: inj_on_def)
  have "card (inv_set (a # as)) = card ?A + card ?B"
    unfolding inv_set_Cons using card_Un_disjoint [OF fA fB dj] .
  then show ?case using cA cB Cons.IH by simp
qed

lemma inversions_inv_count: "inversions L = inv_count L"
  by (simp add: inversions_card card_inv_set)

lemma count_sort_sorted_inversions: "count_sort L = (sort L, int (inversions L))"
  by (simp add: count_sort_correct inversions_inv_count)

text \<open>
  Claim C6.  \<open>count_sort\<close> returns the sorted list and the number of inversions of
  its argument, the number of index pairs \<open>i < j\<close> with \<open>L[i] > L[j]\<close>.  This holds
  for every list of integers, so for those with distinct elements.
\<close>

theorem count_sort_inversions: "count_sort L = (sort L, int (inversions L))"
  by (rule count_sort_sorted_inversions)

section \<open>The parity test\<close>

lemma index_pos_of: "v \<in> set xs \<Longrightarrow> index xs v = Inr (int (pos_of xs v))"
  by (induction xs) (auto simp: pos_of_def)

lemma index_absent: "v \<notin> set xs \<Longrightarrow> index xs v = Inl ValueError"
  by (induction xs) auto

lemma pos_of_less: "v \<in> set xs \<Longrightarrow> pos_of xs v < length xs"
  unfolding pos_of_def by (induction xs) auto

lemma nth_pos_of: "v \<in> set xs \<Longrightarrow> xs ! pos_of xs v = v"
  unfolding pos_of_def by (induction xs) auto

lemma valid_board_set: "valid_board b \<Longrightarrow> set (board b) = {0..size_b b - 1}"
  unfolding valid_board_def by (metis set_sort set_upto)

lemma valid_board_mset: "valid_board b \<Longrightarrow> mset (board b) = mset [0..size_b b - 1]"
  unfolding valid_board_def by (metis mset_sort)

lemma valid_board_distinct: "valid_board b \<Longrightarrow> distinct (board b)"
  unfolding valid_board_def by (metis distinct_sort distinct_upto)

lemma valid_board_size_pos: "valid_board b \<Longrightarrow> 0 < size_b b"
  unfolding valid_board_def size_b_def by simp

lemma valid_board_length: "valid_board b \<Longrightarrow> int (length (board b)) = size_b b"
proof -
  assume v: "valid_board b"
  then have "length (board b) = length [0..size_b b - 1]"
    unfolding valid_board_def by (metis length_sort)
  then show ?thesis using valid_board_size_pos [OF v] by simp
qed

lemma valid_board_empty_in: "valid_board b \<Longrightarrow> EMPTY_TILE \<in> set (board b)"
  using valid_board_set [of b] valid_board_size_pos [of b] by (simp add: EMPTY_TILE_def)

lemma xy_valid:
  assumes "-1 < t" "t < size_b b" "t \<in> set (board b)"
  shows "xy b t = Inr (int (pos_of (board b) t) mod width b, int (pos_of (board b) t) div width b)"
  using assms by (simp add: xy_def x_coord_def y_coord_def valid_tile_num_def index_pos_of)

lemma xy_empty:
  assumes "valid_board b"
  shows "xy b EMPTY_TILE = Inr (int (pos_of (board b) EMPTY_TILE) mod width b,
           int (pos_of (board b) EMPTY_TILE) div width b)"
  using valid_board_empty_in [OF assms] valid_board_size_pos [OF assms]
  by (intro xy_valid) (simp_all add: EMPTY_TILE_def)

lemma inv_set_map_cong:
  assumes "\<And>a c. a \<in> set L \<Longrightarrow> c \<in> set L \<Longrightarrow> (f a < f c) = (g a < g c)"
  shows "inv_set (map f L) = inv_set (map g L)"
  using assms by (auto simp: inv_set_def)

lemma inversions_map_cong:
  assumes "\<And>a c. a \<in> set L \<Longrightarrow> c \<in> set L \<Longrightarrow> (f a < f c) = (g a < g c)"
  shows "inversions (map f L) = inversions (map g L)"
  using inv_set_map_cong [of L f g] assms by (simp add: inversions_card)

lemma solvable_even:
  assumes "valid_board b"
  shows "solvable b =
    Inr (even (int (inversions (map (\<lambda>v. if v = EMPTY_TILE then size_b b else v) (board b)))
               + corner_distance b))"
proof -
  have "inversions (map (\<lambda>v. if v \<noteq> EMPTY_TILE then v else size_b b + 1) (board b)) =
        inversions (map (\<lambda>v. if v = EMPTY_TILE then size_b b else v) (board b))"
    using valid_board_set [OF assms] by (intro inversions_map_cong) auto
  then show ?thesis
    unfolding solvable_def
    by (simp add: xy_empty [OF assms] count_sort_sorted_inversions Let_def corner_distance_def
        width_def height_def even_iff_mod_2_eq_zero)
qed

text \<open>
  Claim C3.  On a board whose cells are a permutation of \<open>0, \<dots>, N\<^sup>2 - 1\<close> (with
  \<open>N \<ge> 1\<close>), \<open>solvable\<close> returns whether \<open>I + D\<close> is even: \<open>I\<close> the number of
  inversions of the cells with the empty slot counted as \<open>N\<^sup>2\<close>, and \<open>D\<close> the grid
  distance from the empty slot to the bottom-right corner.
\<close>

theorem solvable_parity:
  assumes "valid_board b"
  shows "solvable b =
    Inr (even (int (inversions (map (\<lambda>v. if v = EMPTY_TILE then size_b b else v) (board b)))
               + corner_distance b))"
  using assms by (rule solvable_even)

lemma valid_example1: "valid_board \<lparr>height_and_width = 3, board = [2,5,8,4,3,6,7,1,0]\<rparr>"
  by code_simp

theorem solvable_parity_witness:
  "valid_board \<lparr>height_and_width = 3, board = [2,5,8,4,3,6,7,1,0]\<rparr> \<and>
   solvable \<lparr>height_and_width = 3, board = [2,5,8,4,3,6,7,1,0]\<rparr> =
     Inr (even
       (int (inversions
          (map (\<lambda>v. if v = EMPTY_TILE
                    then size_b \<lparr>height_and_width = 3, board = [2,5,8,4,3,6,7,1,0]\<rparr>
                    else v)
               (board \<lparr>height_and_width = 3, board = [2,5,8,4,3,6,7,1,0]\<rparr>)))
        + corner_distance \<lparr>height_and_width = 3, board = [2,5,8,4,3,6,7,1,0]\<rparr>))"
  using solvable_parity [OF valid_example1] valid_example1
  by (rule conjI [rotated])

section \<open>Moves preserve the parity\<close>

lemma cross_single_compl:
  "a \<notin> set ms \<Longrightarrow> cross [a] ms + cross ms [a] = length ms"
proof (induction ms)
  case Nil
  then show ?case by simp
next
  case (Cons m ms)
  then have "cross [a] ms + cross ms [a] = length ms" by simp
  moreover have "m \<noteq> a" using Cons.prems by auto
  ultimately show ?case by (auto simp: cross_Cons2)
qed

lemma inv_count_ends:
  "inv_count (a # ms @ [c]) = inv_count ms + cross ms [c] + cross [a] ms + cross [a] [c]"
  using inv_count_append [of "[a]" "ms @ [c]"] inv_count_append [of ms "[c]"]
  by (simp add: cross_append2)

lemma swap_ends_odd:
  assumes "a \<notin> set ms" "c \<notin> set ms" "a \<noteq> c"
  shows "odd (inv_count (a # ms @ [c]) + inv_count (c # ms @ [a]))"
proof -
  have 1: "cross [a] ms + cross ms [a] = length ms"
    and 2: "cross [c] ms + cross ms [c] = length ms"
    using assms cross_single_compl by auto
  have 3: "cross [a] [c] + cross [c] [a] = 1"
    using assms(3) by auto
  have eq: "inv_count (a # ms @ [c]) + inv_count (c # ms @ [a]) =
      2 * inv_count ms + 2 * length ms + 1"
    unfolding inv_count_ends using 1 2 3 by linarith
  show ?thesis unfolding eq by simp
qed

lemma inv_count_frame:
  "inv_count (xs @ zs @ ys) =
     inv_count xs + inv_count zs + inv_count ys + cross xs (zs @ ys) + cross zs ys"
  by (simp add: inv_count_append)

lemma swap_odd:
  assumes "distinct (xs @ a # ms @ c # ys)"
  shows "odd (inv_count (xs @ a # ms @ c # ys) + inv_count (xs @ c # ms @ a # ys))"
proof -
  let ?z = "a # ms @ [c]" and ?z' = "c # ms @ [a]"
  have m: "mset ?z = mset ?z'" by simp
  have c1: "cross xs (?z @ ys) = cross xs (?z' @ ys)"
    by (rule cross_mset) simp_all
  have c2: "cross ?z ys = cross ?z' ys"
    by (rule cross_mset) simp_all
  have o: "odd (inv_count ?z + inv_count ?z')"
    using assms by (intro swap_ends_odd) auto
  have e1: "inv_count (xs @ a # ms @ c # ys) =
      inv_count xs + inv_count ?z + inv_count ys + cross xs (?z @ ys) + cross ?z ys"
    using inv_count_frame [of xs ?z ys] by simp
  have e2: "inv_count (xs @ c # ms @ a # ys) =
      inv_count xs + inv_count ?z' + inv_count ys + cross xs (?z' @ ys) + cross ?z' ys"
    using inv_count_frame [of xs ?z' ys] by simp
  have "inv_count (xs @ a # ms @ c # ys) + inv_count (xs @ c # ms @ a # ys) =
      2 * (inv_count xs + inv_count ys + cross xs (?z @ ys) + cross ?z ys)
      + (inv_count ?z + inv_count ?z')"
    unfolding e1 e2 c1 c2 by simp
  then show ?thesis using o by simp
qed

lemma split_two:
  assumes "i < j" "j < length L"
  obtains xs ms ys where "L = xs @ L ! i # ms @ L ! j # ys" "length xs = i"
    "length ms = j - i - 1"
proof -
  have iL: "i < length L" using assms by simp
  have L1: "L = take i L @ L ! i # drop (Suc i) L"
    using id_take_nth_drop [OF iL] .
  let ?r = "drop (Suc i) L"
  have jr: "j - i - 1 < length ?r" using assms by simp
  have r: "?r = take (j - i - 1) ?r @ ?r ! (j - i - 1) # drop (Suc (j - i - 1)) ?r"
    using id_take_nth_drop [OF jr] .
  have "?r ! (j - i - 1) = L ! j" using assms by simp
  with r have r': "?r = take (j - i - 1) ?r @ L ! j # drop (Suc (j - i - 1)) ?r" by simp
  show ?thesis
  proof (rule that [of "take i L" "take (j - i - 1) ?r" "drop (Suc (j - i - 1)) ?r"])
    show "L = take i L @ L ! i # take (j - i - 1) ?r @ L ! j # drop (Suc (j - i - 1)) ?r"
      using L1 r' by metis
    show "length (take i L) = i" using iL by simp
    show "length (take (j - i - 1) ?r) = j - i - 1" using jr by simp
  qed
qed

lemma swap_update:
  assumes "length xs = i" "length ms = j - i - 1" "i < j"
  shows "(xs @ a # ms @ c # ys)[i := c, j := a] = xs @ c # ms @ a # ys"
proof -
  have "(xs @ a # ms @ c # ys)[i := c] = xs @ c # ms @ c # ys"
    using assms(1) by (simp add: list_update_append)
  moreover have "j = length (xs @ c # ms)" using assms by simp
  ultimately show ?thesis
    by (metis append.assoc append_Cons list_update_length)
qed

lemma swap_update_odd:
  assumes "distinct L" "i < j" "j < length L"
  shows "odd (inv_count L + inv_count (L[i := L ! j, j := L ! i]))"
proof -
  obtain xs ms ys where L: "L = xs @ L ! i # ms @ L ! j # ys" and len: "length xs = i"
    "length ms = j - i - 1"
    using split_two [OF assms(2,3)] by blast
  have d: "distinct (xs @ L ! i # ms @ L ! j # ys)" using assms(1) L by metis
  have u: "L[i := L ! j, j := L ! i] = xs @ L ! j # ms @ L ! i # ys"
    using swap_update [OF len assms(2), of "L ! i" "L ! j" ys] L by metis
  show ?thesis using swap_odd [OF d] L u by metis
qed

lemma swap_update_odd':
  assumes "distinct L" "i \<noteq> j" "i < length L" "j < length L"
  shows "odd (inv_count L + inv_count (L[i := L ! j, j := L ! i]))"
proof (cases "i < j")
  case True
  then show ?thesis using swap_update_odd assms by blast
next
  case False
  then have ji: "j < i" using assms(2) by simp
  have "L[i := L ! j, j := L ! i] = L[j := L ! i, i := L ! j]"
    using assms(2) by (simp add: list_update_swap)
  then show ?thesis using swap_update_odd [OF assms(1) ji assms(3)] by simp
qed

lemma grid_index_bound:
  fixes n :: int
  assumes "0 \<le> xv" "xv < n" "0 \<le> yv" "yv < n"
  shows "0 \<le> n * yv + xv" "n * yv + xv < n ^ 2"
proof -
  have n: "0 < n" using assms by simp
  show "0 \<le> n * yv + xv" using assms n by simp
  have "n * yv \<le> n * (n - 1)" using assms n by (intro mult_left_mono) auto
  then have "n * yv + xv < n * (n - 1) + n" using assms by linarith
  also have "\<dots> = n ^ 2" by (simp add: power2_eq_square algebra_simps)
  finally show "n * yv + xv < n ^ 2" .
qed

lemma grid_index_mod_div:
  fixes n :: int
  assumes "0 \<le> xv" "xv < n"
  shows "(n * yv + xv) mod n = xv" "(n * yv + xv) div n = yv"
  using assms by simp_all

text \<open>What a successful \<open>move_tile\<close> does on a board of the data model.\<close>

lemma move_tile_Some:
  assumes v: "valid_board b" and m: "move_tile b d new = Inr (Some b', r)"
  obtains xv yv where
    "0 \<le> xv" "xv < height_and_width b" "0 \<le> yv" "yv < height_and_width b"
    "(xv, yv) = (int (pos_of (board b) EMPTY_TILE) mod height_and_width b,
                 int (pos_of (board b) EMPTY_TILE) div height_and_width b) \<or>
     \<bar>xv - int (pos_of (board b) EMPTY_TILE) mod height_and_width b\<bar> +
     \<bar>yv - int (pos_of (board b) EMPTY_TILE) div height_and_width b\<bar> = 1"
    "b' = \<lparr>height_and_width = height_and_width b,
          board = (board b)[nat (height_and_width b * yv + xv) := EMPTY_TILE,
                            pos_of (board b) EMPTY_TILE :=
                              board b ! nat (height_and_width b * yv + xv)]\<rparr>"
    "r = (if new then b else b')"
proof -
  define n where "n = height_and_width b"
  define i0 where "i0 = pos_of (board b) EMPTY_TILE"
  define ox where "ox = int i0 mod n"
  define oy where "oy = int i0 div n"
  define xv where "xv = (if d = LEFT then ox - 1 else if d = RIGHT then ox + 1 else ox)"
  define yv where "yv = (if d = LEFT \<or> d = RIGHT then oy
                     else if d = UP then oy - 1
                     else if d = DOWN then oy + 1 else oy)"
  have npos: "0 < n" using v unfolding valid_board_def n_def by simp
  have len: "int (length (board b)) = n ^ 2"
    using valid_board_length [OF v] by (simp add: size_b_def n_def)
  have i0len: "i0 < length (board b)"
    unfolding i0_def using valid_board_empty_in [OF v] by (rule pos_of_less)
  have at0: "board b ! i0 = EMPTY_TILE"
    unfolding i0_def using valid_board_empty_in [OF v] by (rule nth_pos_of)
  have xy: "xy b EMPTY_TILE = Inr (ox, oy)"
    using xy_empty [OF v] by (simp add: ox_def oy_def i0_def n_def width_def)
  have old: "n * oy + ox = int i0" unfolding ox_def oy_def by simp
  have ingrid: "-1 < xv \<and> xv < n \<and> -1 < yv \<and> yv < n"
  proof (rule ccontr)
    assume "\<not> ?thesis"
    then have "move_tile b d new = Inr (None, b)"
      unfolding move_tile_def xy
      by (simp add: Let_def xv_def yv_def width_def height_def n_def)
    with m show False by simp
  qed
  then have b: "0 \<le> xv" "xv < n" "0 \<le> yv" "yv < n" by auto
  have idx: "0 \<le> n * yv + xv" "n * yv + xv < n ^ 2"
    using grid_index_bound [OF b] by auto
  have idx0: "\<not> n * yv + xv < 0" using idx(1) by linarith
  have res: "move_tile b d new =
      (if new then Inr (Some \<lparr>height_and_width = n,
                 board = (board b)[nat (n * yv + xv) := board b ! i0, i0 := board b ! nat (n * yv + xv)]\<rparr>, b)
       else Inr (Some (b\<lparr>board := (board b)[nat (n * yv + xv) := board b ! i0, i0 := board b ! nat (n * yv + xv)]\<rparr>),
                 b\<lparr>board := (board b)[nat (n * yv + xv) := board b ! i0, i0 := board b ! nat (n * yv + xv)]\<rparr>))"
    unfolding move_tile_def xy
    using ingrid idx0 idx(2) i0len old len
    by (simp add: Let_def xy_to_idx_def width_def height_def flip: n_def xv_def yv_def)
  have eqrec: "b\<lparr>board := cs\<rparr> = \<lparr>height_and_width = n, board = cs\<rparr>" for cs
    by (simp add: n_def)
  have near: "(xv, yv) = (ox, oy) \<or> \<bar>xv - ox\<bar> + \<bar>yv - oy\<bar> = 1"
    unfolding xv_def yv_def by auto
  show ?thesis
  proof (rule that [of xv yv])
    show "0 \<le> xv" "xv < height_and_width b" "0 \<le> yv" "yv < height_and_width b"
      using b by (simp_all add: n_def)
    show "(xv, yv) = (int (pos_of (board b) EMPTY_TILE) mod height_and_width b,
                 int (pos_of (board b) EMPTY_TILE) div height_and_width b) \<or>
     \<bar>xv - int (pos_of (board b) EMPTY_TILE) mod height_and_width b\<bar> +
     \<bar>yv - int (pos_of (board b) EMPTY_TILE) div height_and_width b\<bar> = 1"
      using near by (simp add: ox_def oy_def i0_def n_def)
    show "b' = \<lparr>height_and_width = height_and_width b,
          board = (board b)[nat (height_and_width b * yv + xv) := EMPTY_TILE,
                            pos_of (board b) EMPTY_TILE :=
                              board b ! nat (height_and_width b * yv + xv)]\<rparr>"
      using m res at0 by (auto simp: eqrec n_def i0_def split: if_splits)
    show "r = (if new then b else b')"
      using m res by (auto split: if_splits)
  qed
qed

lemma pos_of_unique:
  "distinct xs \<Longrightarrow> i < length xs \<Longrightarrow> xs ! i = v \<Longrightarrow> pos_of xs v = i"
proof (induction xs arbitrary: i)
  case Nil
  then show ?case by simp
next
  case (Cons a xs)
  show ?case
  proof (cases i)
    case 0
    then show ?thesis using Cons.prems by (simp add: pos_of_def)
  next
    case (Suc k)
    then have "a \<noteq> v" using Cons.prems by auto
    moreover have "pos_of xs v = k" using Cons Suc by auto
    ultimately show ?thesis using Suc by (simp add: pos_of_def)
  qed
qed

lemma sort_swap:
  assumes "i < length L" "j < length L"
  shows "sort (L[j := L ! i, i := L ! j]) = sort L"
  by (rule properties_for_sort) (simp_all add: mset_swap assms)

lemma distinct_swap':
  assumes "distinct L" "i < length L" "j < length L"
  shows "distinct (L[j := L ! i, i := L ! j])"
  using assms by (metis distinct_swap)

lemma tile_key_inj:
  assumes "valid_board b"
  shows "inj_on (\<lambda>v. if v = EMPTY_TILE then size_b b else v) (set (board b))"
  unfolding valid_board_set [OF assms] by (auto simp: inj_on_def EMPTY_TILE_def split: if_splits)

lemma move_tile_preserves:
  assumes v: "valid_board b" and m: "move_tile b d new = Inr (Some b', r)"
  shows "valid_board b' \<and> solvable b' = solvable b"
proof -
  define n where "n = height_and_width b"
  define i0 where "i0 = pos_of (board b) EMPTY_TILE"
  define ox where "ox = int i0 mod n"
  define oy where "oy = int i0 div n"
  obtain xv yv where b: "0 \<le> xv" "xv < n" "0 \<le> yv" "yv < n"
    and near: "(xv, yv) = (ox, oy) \<or> \<bar>xv - ox\<bar> + \<bar>yv - oy\<bar> = 1"
    and b': "b' = \<lparr>height_and_width = n,
          board = (board b)[nat (n * yv + xv) := EMPTY_TILE, i0 := board b ! nat (n * yv + xv)]\<rparr>"
    using move_tile_Some [OF v m] unfolding n_def i0_def ox_def oy_def by metis
  define j where "j = nat (n * yv + xv)"
  have npos: "0 < n" using v unfolding valid_board_def n_def by simp
  have len: "int (length (board b)) = n ^ 2"
    using valid_board_length [OF v] by (simp add: size_b_def n_def)
  have i0len: "i0 < length (board b)"
    unfolding i0_def using valid_board_empty_in [OF v] by (rule pos_of_less)
  have at0: "board b ! i0 = EMPTY_TILE"
    unfolding i0_def using valid_board_empty_in [OF v] by (rule nth_pos_of)
  have jlen: "j < length (board b)"
    using grid_index_bound [OF b] len unfolding j_def by linarith
  have jint: "int j = n * yv + xv"
    using grid_index_bound(1) [OF b] unfolding j_def by simp
  have cells': "board b' = (board b)[j := board b ! i0, i0 := board b ! j]"
    using b' at0 by (simp add: j_def)
  have hw': "height_and_width b' = n" using b' by simp
  have sz: "size_b b' = size_b b" by (simp add: size_b_def hw' n_def)
  have dist: "distinct (board b)" using valid_board_distinct [OF v] .
  show ?thesis
  proof (cases "j = i0")
    case True
    then have "board b' = board b" using cells' by simp
    then have "b' = b" using hw' by (simp add: n_def)
    then show ?thesis using v by simp
  next
    case False
    have v': "valid_board b'"
      using v sort_swap [OF i0len jlen] npos
      by (simp add: valid_board_def cells' hw' sz flip: n_def)
    have d': "distinct (board b')"
      unfolding cells' using distinct_swap' [OF dist i0len jlen] .
    have "board b' ! j = EMPTY_TILE"
      unfolding cells' using False jlen i0len at0 by simp
    then have pos': "pos_of (board b') EMPTY_TILE = j"
      using pos_of_unique [OF d', of j] jlen by (simp add: cells')
    have md: "int j mod n = xv" "int j div n = yv"
      unfolding jint using grid_index_mod_div [OF b(1,2)] by auto
    have obnd: "0 \<le> ox" "ox < n" "0 \<le> oy"
      using npos by (simp_all add: ox_def oy_def pos_imp_zdiv_nonneg_iff)
    have "int i0 < n * n" using i0len len by (simp add: power2_eq_square)
    moreover have "n * (int i0 div n) \<le> int i0"
      using npos mult_div_mod_eq [of n "int i0"] pos_mod_sign [of n "int i0"] by linarith
    ultimately have "n * oy < n * n" unfolding oy_def by linarith
    then have oyn: "oy < n" using npos by (simp add: mult_less_cancel_left_pos)
    have "(xv, yv) \<noteq> (ox, oy)"
    proof
      assume "(xv, yv) = (ox, oy)"
      then have "int j = n * oy + ox" using jint by simp
      also have "\<dots> = int i0" unfolding ox_def oy_def by simp
      finally show False using False by simp
    qed
    then have step: "\<bar>xv - ox\<bar> + \<bar>yv - oy\<bar> = 1" using near by blast
    have cd: "corner_distance b = (n - 1 - ox) + (n - 1 - oy)"
      using obnd oyn
      by (simp add: corner_distance_def Let_def flip: n_def i0_def ox_def oy_def)
    have cd': "corner_distance b' = (n - 1 - xv) + (n - 1 - yv)"
      using b by (simp add: corner_distance_def Let_def hw' pos' md)
    have oddcd: "odd (corner_distance b + corner_distance b')"
      unfolding cd cd' using step by presburger
    let ?g = "\<lambda>v. if v = EMPTY_TILE then size_b b else v"
    let ?M = "map ?g (board b)"
    have dM: "distinct ?M"
      using dist tile_key_inj [OF v] by (simp add: distinct_map)
    have M': "map ?g (board b') = ?M[j := ?M ! i0, i0 := ?M ! j]"
      unfolding cells' using i0len jlen by (simp add: map_update)
    have oddinv: "odd (inv_count ?M + inv_count (map ?g (board b')))"
      unfolding M' using swap_update_odd' [OF dM False, of ] jlen i0len by simp
    have eq: "even (int (inversions ?M) + corner_distance b) =
          even (int (inversions (map ?g (board b'))) + corner_distance b')"
      using oddcd oddinv unfolding inversions_inv_count by presburger
    have s': "solvable b' =
        Inr (even (int (inversions (map ?g (board b'))) + corner_distance b'))"
      using solvable_even [OF v'] unfolding sz .
    have "solvable b' = solvable b"
      unfolding s' solvable_even [OF v] by (simp only: eq)
    then show ?thesis using v' by simp
  qed
qed

lemma apply_moves_preserve:
  "valid_board b \<Longrightarrow> apply_moves new b ds = Some b' \<Longrightarrow>
   valid_board b' \<and> solvable b' = solvable b"
proof (induction ds arbitrary: b)
  case Nil
  then show ?case by simp
next
  case (Cons d ds)
  from Cons.prems(2) obtain b1 r where m: "move_tile b d new = Inr (Some b1, r)"
    and rest: "apply_moves new b1 ds = Some b'"
    by (auto split: sum.splits option.splits prod.splits)
  have "valid_board b1 \<and> solvable b1 = solvable b"
    using move_tile_preserves [OF Cons.prems(1) m] .
  then show ?case using Cons.IH [of b1] rest by simp
qed

text \<open>
  Claim C5.  A sequence of legal moves applied to a board of the data model, in place
  or giving new boards, leaves the result of \<open>solvable\<close> unchanged.
\<close>

theorem solvable_invariant_under_moves:
  assumes "valid_board b" and "apply_moves new b ds = Some b'"
  shows "solvable b' = solvable b"
  using apply_moves_preserve [OF assms] by simp

lemma valid_two_away: "valid_board \<lparr>height_and_width = 3, board = [1,2,3,4,5,6,0,7,8]\<rparr>"
  by code_simp

lemma moves_two_away:
  "apply_moves False \<lparr>height_and_width = 3, board = [1,2,3,4,5,6,0,7,8]\<rparr> [RIGHT, RIGHT] =
     Some \<lparr>height_and_width = 3, board = [1,2,3,4,5,6,7,8,0]\<rparr>"
  by code_simp

theorem solvable_invariant_under_moves_witness:
  "valid_board \<lparr>height_and_width = 3, board = [1,2,3,4,5,6,0,7,8]\<rparr> \<and>
   apply_moves False \<lparr>height_and_width = 3, board = [1,2,3,4,5,6,0,7,8]\<rparr> [RIGHT, RIGHT] =
     Some \<lparr>height_and_width = 3, board = [1,2,3,4,5,6,7,8,0]\<rparr> \<and>
   solvable \<lparr>height_and_width = 3, board = [1,2,3,4,5,6,7,8,0]\<rparr> =
     solvable \<lparr>height_and_width = 3, board = [1,2,3,4,5,6,0,7,8]\<rparr>"
  using solvable_invariant_under_moves [OF valid_two_away moves_two_away]
        valid_two_away moves_two_away
  by simp

section \<open>The text of a board\<close>

text \<open>
  \<open>__str__\<close> raises only on a board of width 0 that has cells, and then
  \<open>ZeroDivisionError\<close>; on every other board it returns a string.
\<close>

lemma str_loop_zero:
  "width b = 0 \<Longrightarrow> tiles \<noteq> [] \<Longrightarrow> str_loop b m i tiles out = Inl ZeroDivisionError"
  by (cases tiles) simp_all

lemma str_loop_ok:
  "width b \<noteq> 0 \<Longrightarrow> \<exists>s. str_loop b m i tiles out = Inr s"
  by (induction tiles arbitrary: i out) (simp_all add: Let_def)

lemma board_str_zero:
  "width b = 0 \<Longrightarrow> board b \<noteq> [] \<Longrightarrow> board_str b = Inl ZeroDivisionError"
  by (simp add: board_str_def Let_def str_loop_zero)

lemma board_str_ok:
  assumes "width b \<noteq> 0 \<or> board b = []"
  shows "\<exists>s. board_str b = Inr s"
proof (cases "board b = []")
  case True
  then show ?thesis by (simp add: board_str_def Let_def)
next
  case False
  with assms have "width b \<noteq> 0" by simp
  from str_loop_ok [OF this] show ?thesis
    unfolding board_str_def Let_def
    by (metis sum.case(2))
qed

text \<open>The error of a failed size assertion of \<open>sum_m_dists\<close>.\<close>

lemma assert_message:
  "(case board_str b of Inl e \<Rightarrow> (Inl e :: error + 'a) | Inr _ \<Rightarrow>
      (case board_str other of Inl e \<Rightarrow> Inl e | Inr _ \<Rightarrow> Inl AssertionError)) =
   (if (width b = 0 \<and> board b \<noteq> []) \<or> (width other = 0 \<and> board other \<noteq> [])
    then Inl ZeroDivisionError else Inl AssertionError)"
proof -
  have a: "board_str c = Inl ZeroDivisionError" if "width c = 0 \<and> board c \<noteq> []" for c
    using that board_str_zero by blast
  have b: "\<exists>s. board_str c = Inr s" if "\<not> (width c = 0 \<and> board c \<noteq> [])" for c
    using that board_str_ok [of c] by blast
  show ?thesis
    using a [of b] a [of other] b [of b] b [of other]
    by (cases "width b = 0 \<and> board b \<noteq> []"; cases "width other = 0 \<and> board other \<noteq> []") auto
qed

text \<open>
  When \<open>solvable\<close> returns, the empty tile is a valid tile number, so the board has a
  width other than 0 and the message of the first assertion of \<open>solve\<close> can be built.
\<close>

lemma solvable_width:
  "solvable b = Inr v \<Longrightarrow> width b \<noteq> 0"
  by (auto simp: solvable_def Let_def xy_def valid_tile_num_def size_b_def width_def EMPTY_TILE_def
      split: sum.splits if_splits)

lemma solve_unsolvable:
  "solvable b = Inr False \<Longrightarrow> solve b ign give = Some (Inl AssertionError)"
  using solvable_width [of b False] board_str_ok [of b]
  by (auto simp: solve_def)

section \<open>Manhattan distance\<close>

text \<open>
  Claim C7 as stated fails: \<open>m_dist\<close> does not compare the sizes of the two boards.
  For the solved 3 x 3 board and the solved 4 x 4 board it returns the distance 1 for
  tile 5, and raises nothing.
\<close>

theorem m_dist_size_mismatch_counterexample:
  "size_b \<lparr>height_and_width = 3, board = [1,2,3,4,5,6,7,8,0]\<rparr> \<noteq>
   size_b \<lparr>height_and_width = 4, board = [1,2,3,4,5,6,7,8,9,10,11,12,13,14,15,0]\<rparr> \<and>
   m_dist \<lparr>height_and_width = 3, board = [1,2,3,4,5,6,7,8,0]\<rparr>
          \<lparr>height_and_width = 4, board = [1,2,3,4,5,6,7,8,9,10,11,12,13,14,15,0]\<rparr>
          5 False = Inr 1"
  by code_simp

lemma x_coord_valid:
  assumes "-1 < t" "t < size_b b" "t \<in> set (board b)"
  shows "x_coord b t = Inr (int (pos_of (board b) t) mod width b)"
  using assms by (simp add: x_coord_def valid_tile_num_def index_pos_of)

lemma y_coord_valid:
  assumes "-1 < t" "t < size_b b" "t \<in> set (board b)"
  shows "y_coord b t = Inr (int (pos_of (board b) t) div width b)"
  using assms by (simp add: y_coord_def valid_tile_num_def index_pos_of)

text \<open>
  Claim C7, amended.  The size check is in \<open>sum_m_dists\<close>: for boards of different
  sizes it raises \<open>AssertionError\<close>, unless one of the two boards has the width 0 and
  some cell, in which case building the message of the assertion raises
  \<open>ZeroDivisionError\<close>.  \<open>m_dist\<close> itself returns 0 for the empty tile unless
  \<open>count_free_tile\<close> is set, and otherwise, for a tile that is a valid tile number of
  both boards and occurs in both, \<open>|x - x'| + |y - y'|\<close>, the coordinates taken in each
  board with its own width.
\<close>

theorem m_dist_value:
  "(size_b b \<noteq> size_b other \<longrightarrow>
      sum_m_dists b other =
        (if (width b = 0 \<and> board b \<noteq> []) \<or> (width other = 0 \<and> board other \<noteq> [])
         then Inl ZeroDivisionError else Inl AssertionError)) \<and>
   (-1 < t \<and> t < size_b b \<and> t = EMPTY_TILE \<and> \<not> count_free_tile \<longrightarrow>
      m_dist b other t count_free_tile = Inr 0) \<and>
   (-1 < t \<and> t < size_b b \<and> t < size_b other \<and>
    t \<in> set (board b) \<and> t \<in> set (board other) \<and> (t \<noteq> EMPTY_TILE \<or> count_free_tile) \<longrightarrow>
      m_dist b other t count_free_tile =
        Inr (\<bar>int (pos_of (board b) t) mod width b - int (pos_of (board other) t) mod width other\<bar>
           + \<bar>int (pos_of (board b) t) div width b - int (pos_of (board other) t) div width other\<bar>))"
proof (intro conjI)
  show "size_b b \<noteq> size_b other \<longrightarrow>
      sum_m_dists b other =
        (if (width b = 0 \<and> board b \<noteq> []) \<or> (width other = 0 \<and> board other \<noteq> [])
         then Inl ZeroDivisionError else Inl AssertionError)"
    using assert_message [where b = b and other = other and 'a = int]
    by (simp add: sum_m_dists_def)
next
  show "-1 < t \<and> t < size_b b \<and> t = EMPTY_TILE \<and> \<not> count_free_tile \<longrightarrow>
      m_dist b other t count_free_tile = Inr 0"
    by (auto simp: m_dist_def valid_tile_num_def)
next
  show "-1 < t \<and> t < size_b b \<and> t < size_b other \<and>
    t \<in> set (board b) \<and> t \<in> set (board other) \<and> (t \<noteq> EMPTY_TILE \<or> count_free_tile) \<longrightarrow>
      m_dist b other t count_free_tile =
        Inr (\<bar>int (pos_of (board b) t) mod width b - int (pos_of (board other) t) mod width other\<bar>
           + \<bar>int (pos_of (board b) t) div width b - int (pos_of (board other) t) div width other\<bar>)"
    by (auto simp: m_dist_def valid_tile_num_def x_coord_valid y_coord_valid)
qed

theorem m_dist_value_witness:
  "sum_m_dists \<lparr>height_and_width = 3, board = [1,2,3,4,5,6,7,8,0]\<rparr> \<lparr>height_and_width = 4, board = [1,2,3,4,5,6,7,8,9,10,11,12,13,14,15,0]\<rparr> = Inl AssertionError \<and>
   m_dist \<lparr>height_and_width = 3, board = [1,2,3,4,5,6,7,8,0]\<rparr> \<lparr>height_and_width = 4, board = [1,2,3,4,5,6,7,8,9,10,11,12,13,14,15,0]\<rparr> 0 False = Inr 0 \<and>
   m_dist \<lparr>height_and_width = 3, board = [2,5,8,4,3,6,7,1,0]\<rparr> \<lparr>height_and_width = 3, board = [1,2,3,4,5,6,7,8,0]\<rparr> 1 False = Inr 3 \<and>
   m_dist \<lparr>height_and_width = 3, board = [1,2,3,4,5,6,7,8,0]\<rparr> \<lparr>height_and_width = 4, board = [1,2,3,4,5,6,7,8,9,10,11,12,13,14,15,0]\<rparr> 0 True = Inr 2 \<and>
   sum_m_dists \<lparr>height_and_width = 0, board = [1]\<rparr> \<lparr>height_and_width = 3, board = [1,2,3,4,5,6,7,8,0]\<rparr> = Inl ZeroDivisionError"
  using m_dist_value [of "\<lparr>height_and_width = 3, board = [1,2,3,4,5,6,7,8,0]\<rparr>" "\<lparr>height_and_width = 4, board = [1,2,3,4,5,6,7,8,9,10,11,12,13,14,15,0]\<rparr>" 0 False]
        m_dist_value [of "\<lparr>height_and_width = 0, board = [1]\<rparr>" "\<lparr>height_and_width = 3, board = [1,2,3,4,5,6,7,8,0]\<rparr>" 0 False]
        m_dist_value [of "\<lparr>height_and_width = 3, board = [2,5,8,4,3,6,7,1,0]\<rparr>" "\<lparr>height_and_width = 3, board = [1,2,3,4,5,6,7,8,0]\<rparr>" 1 False]
        m_dist_value [of "\<lparr>height_and_width = 3, board = [1,2,3,4,5,6,7,8,0]\<rparr>" "\<lparr>height_and_width = 4, board = [1,2,3,4,5,6,7,8,9,10,11,12,13,14,15,0]\<rparr>" 0 True]
  by (simp add: size_b_def EMPTY_TILE_def pos_of_def width_def)

section \<open>The order of the queue\<close>

text \<open>
  Claim C8 as stated fails.  The two items below have the same \<open>f = 4\<close>; they are in
  the queue together when \<open>solve\<close> runs on the board 1 2 3 / 4 5 6 / 0 7 8.  The board
  of the first is the smaller one in the order of the cell sequences, but the second
  item is the smaller item and is popped first, because its \<open>h\<close> is smaller.
\<close>

theorem tie_break_counterexample:
  "item \<lparr>height_and_width = 3, board = [1,2,3,4,5,6,7,8,0]\<rparr> 1 (Some ''u'')
        \<lparr>height_and_width = 3, board = [1,2,3,0,5,6,4,7,8]\<rparr> 0 =
     Inr \<lparr>item_f = 4, item_h = 3, item_g = 1,
          item_board = \<lparr>height_and_width = 3, board = [1,2,3,0,5,6,4,7,8]\<rparr>,
          item_direction = Some ''u'', item_parent_index = 0\<rparr> \<and>
   item \<lparr>height_and_width = 3, board = [1,2,3,4,5,6,7,8,0]\<rparr> 2 (Some ''u'')
        \<lparr>height_and_width = 3, board = [1,2,3,4,0,6,7,5,8]\<rparr> 2 =
     Inr \<lparr>item_f = 4, item_h = 2, item_g = 2,
          item_board = \<lparr>height_and_width = 3, board = [1,2,3,4,0,6,7,5,8]\<rparr>,
          item_direction = Some ''u'', item_parent_index = 2\<rparr> \<and>
   board_lt \<lparr>height_and_width = 3, board = [1,2,3,0,5,6,4,7,8]\<rparr>
            \<lparr>height_and_width = 3, board = [1,2,3,4,0,6,7,5,8]\<rparr> \<and>
   item_less
     \<lparr>item_f = 4, item_h = 3, item_g = 1,
      item_board = \<lparr>height_and_width = 3, board = [1,2,3,0,5,6,4,7,8]\<rparr>,
      item_direction = Some ''u'', item_parent_index = 0\<rparr>
     \<lparr>item_f = 4, item_h = 2, item_g = 2,
      item_board = \<lparr>height_and_width = 3, board = [1,2,3,4,0,6,7,5,8]\<rparr>,
      item_direction = Some ''u'', item_parent_index = 2\<rparr> = Inr False \<and>
   heappop
     [\<lparr>item_f = 4, item_h = 3, item_g = 1,
       item_board = \<lparr>height_and_width = 3, board = [1,2,3,0,5,6,4,7,8]\<rparr>,
       item_direction = Some ''u'', item_parent_index = 0\<rparr>,
      \<lparr>item_f = 4, item_h = 2, item_g = 2,
       item_board = \<lparr>height_and_width = 3, board = [1,2,3,4,0,6,7,5,8]\<rparr>,
       item_direction = Some ''u'', item_parent_index = 2\<rparr>] =
     Inr (\<lparr>item_f = 4, item_h = 2, item_g = 2,
           item_board = \<lparr>height_and_width = 3, board = [1,2,3,4,0,6,7,5,8]\<rparr>,
           item_direction = Some ''u'', item_parent_index = 2\<rparr>,
          [\<lparr>item_f = 4, item_h = 3, item_g = 1,
            item_board = \<lparr>height_and_width = 3, board = [1,2,3,0,5,6,4,7,8]\<rparr>,
            item_direction = Some ''u'', item_parent_index = 0\<rparr>])"
  by code_simp

lemma lex_less_irrefl: "\<not> lex_less xs xs"
  by (induction xs) auto

lemma lex_less_asym: "lex_less xs ys \<Longrightarrow> \<not> lex_less ys xs"
  by (induction xs ys rule: lex_less.induct) (auto split: if_splits)

lemma lex_less_total: "xs \<noteq> ys \<Longrightarrow> lex_less xs ys \<or> lex_less ys xs"
  by (induction xs ys rule: lex_less.induct) (auto split: if_splits)

lemma item_f_sum: "item gl g d b p = Inr a \<Longrightarrow>
    item_f a = item_g a + item_h a \<and> item_g a = g \<and> item_board a = b"
  by (auto simp: item_def split: sum.splits)

lemma heappop_two:
  assumes "item_less a c = Inr True" "item_less c a = Inr False"
  shows "heappop [a, c] = Inr (a, [c])" "heappop [c, a] = Inr (a, [c])"
proof -
  have "a \<noteq> c" using assms by auto
  then show "heappop [a, c] = Inr (a, [c])" "heappop [c, a] = Inr (a, [c])"
    using assms by (auto simp: heappop_def)
qed

text \<open>
  Claim C8, amended.  Items are compared as tuples \<open>(f, h, g, board, \<dots>)\<close>.  Of two
  items of the solver with equal \<open>f\<close> the one with the smaller \<open>h\<close> is ordered first
  and popped first; when \<open>h\<close> is equal too (and with it \<open>g\<close>), the one whose board has
  the smaller cell sequence is.
\<close>

theorem tie_break_order:
  assumes "item gl g1 d1 b1 p1 = Inr a" and "item gl g2 d2 b2 p2 = Inr c"
    and "item_f a = item_f c"
    and "item_h a < item_h c \<or> (item_h a = item_h c \<and> lex_less (board b1) (board b2))"
  shows "item_less a c = Inr True \<and> item_less c a = Inr False \<and>
         heappop [a, c] = Inr (a, [c]) \<and> heappop [c, a] = Inr (a, [c])"
proof -
  have fa: "item_f a = item_g a + item_h a" "item_board a = b1"
    and fc: "item_f c = item_g c + item_h c" "item_board c = b2"
    using item_f_sum [OF assms(1)] item_f_sum [OF assms(2)] by auto
  have lt: "item_less a c = Inr True \<and> item_less c a = Inr False"
  proof (cases "item_h a < item_h c")
    case True
    then show ?thesis using assms(3) by (simp add: item_less_def)
  next
    case False
    then have h: "item_h a = item_h c" and l: "lex_less (board b1) (board b2)"
      using assms(4) by auto
    have g: "item_g a = item_g c" using assms(3) fa(1) fc(1) h by linarith
    have ne: "board b1 \<noteq> board b2" using l lex_less_irrefl [of "board b2"] by metis
    have nl: "\<not> lex_less (board b2) (board b1)" using l lex_less_asym by auto
    show ?thesis
      using assms(3) h g ne l nl fa(2) fc(2)
      by (simp add: item_less_def board_eq_def board_lt_def)
  qed
  then have lt': "item_less a c = Inr True" and ge: "item_less c a = Inr False" by auto
  show ?thesis using lt heappop_two [OF lt' ge] by simp
qed

lemma item_h3_g1:
  "item \<lparr>height_and_width = 3, board = [1,2,3,4,5,6,7,8,0]\<rparr> 1 (Some ''u'') \<lparr>height_and_width = 3, board = [1,2,3,0,5,6,4,7,8]\<rparr> 0 =
   Inr \<lparr>item_f = 4, item_h = 3, item_g = 1, item_board = \<lparr>height_and_width = 3, board = [1,2,3,0,5,6,4,7,8]\<rparr>,
      item_direction = Some ''u'', item_parent_index = 0\<rparr>"
  by code_simp

lemma item_h2_g2:
  "item \<lparr>height_and_width = 3, board = [1,2,3,4,5,6,7,8,0]\<rparr> 2 (Some ''u'') \<lparr>height_and_width = 3, board = [1,2,3,4,0,6,7,5,8]\<rparr> 2 =
   Inr \<lparr>item_f = 4, item_h = 2, item_g = 2, item_board = \<lparr>height_and_width = 3, board = [1,2,3,4,0,6,7,5,8]\<rparr>,
      item_direction = Some ''u'', item_parent_index = 2\<rparr>"
  by code_simp

lemma item_up:
  "item \<lparr>height_and_width = 3, board = [1,2,3,4,5,6,7,8,0]\<rparr> 1 (Some ''u'') \<lparr>height_and_width = 3, board = [1,0,3,4,2,6,7,5,8]\<rparr> 0 =
   Inr \<lparr>item_f = 4, item_h = 3, item_g = 1, item_board = \<lparr>height_and_width = 3, board = [1,0,3,4,2,6,7,5,8]\<rparr>,
      item_direction = Some ''u'', item_parent_index = 0\<rparr>"
  by code_simp

lemma item_left:
  "item \<lparr>height_and_width = 3, board = [1,2,3,4,5,6,7,8,0]\<rparr> 1 (Some ''l'') \<lparr>height_and_width = 3, board = [1,2,3,0,4,6,7,5,8]\<rparr> 0 =
   Inr \<lparr>item_f = 4, item_h = 3, item_g = 1, item_board = \<lparr>height_and_width = 3, board = [1,2,3,0,4,6,7,5,8]\<rparr>,
      item_direction = Some ''l'', item_parent_index = 0\<rparr>"
  by code_simp

theorem tie_break_order_witness:
  "heappop
     [\<lparr>item_f = 4, item_h = 3, item_g = 1, item_board = \<lparr>height_and_width = 3, board = [1,2,3,0,5,6,4,7,8]\<rparr>,
      item_direction = Some ''u'', item_parent_index = 0\<rparr>,
      \<lparr>item_f = 4, item_h = 2, item_g = 2, item_board = \<lparr>height_and_width = 3, board = [1,2,3,4,0,6,7,5,8]\<rparr>,
      item_direction = Some ''u'', item_parent_index = 2\<rparr>] =
   Inr (\<lparr>item_f = 4, item_h = 2, item_g = 2, item_board = \<lparr>height_and_width = 3, board = [1,2,3,4,0,6,7,5,8]\<rparr>,
      item_direction = Some ''u'', item_parent_index = 2\<rparr>,
     [\<lparr>item_f = 4, item_h = 3, item_g = 1, item_board = \<lparr>height_and_width = 3, board = [1,2,3,0,5,6,4,7,8]\<rparr>,
      item_direction = Some ''u'', item_parent_index = 0\<rparr>]) \<and>
   heappop
     [\<lparr>item_f = 4, item_h = 3, item_g = 1, item_board = \<lparr>height_and_width = 3, board = [1,2,3,0,4,6,7,5,8]\<rparr>,
      item_direction = Some ''l'', item_parent_index = 0\<rparr>,
      \<lparr>item_f = 4, item_h = 3, item_g = 1, item_board = \<lparr>height_and_width = 3, board = [1,0,3,4,2,6,7,5,8]\<rparr>,
      item_direction = Some ''u'', item_parent_index = 0\<rparr>] =
   Inr (\<lparr>item_f = 4, item_h = 3, item_g = 1, item_board = \<lparr>height_and_width = 3, board = [1,0,3,4,2,6,7,5,8]\<rparr>,
      item_direction = Some ''u'', item_parent_index = 0\<rparr>,
     [\<lparr>item_f = 4, item_h = 3, item_g = 1, item_board = \<lparr>height_and_width = 3, board = [1,2,3,0,4,6,7,5,8]\<rparr>,
      item_direction = Some ''l'', item_parent_index = 0\<rparr>])"
  using tie_break_order [OF item_h2_g2 item_h3_g1] tie_break_order [OF item_up item_left]
  by simp

section \<open>The list that solve returns\<close>

text \<open>
  Claim C2 fails on the code.  The docstring of \<open>solve\<close> says that the next move that
  should be taken towards the goal is at index 0 of the returned list.  On the board
  1 2 3 / 4 5 6 / 0 7 8, which is solvable, \<open>solve\<close> returns three elements, and the
  one at index 0 is the start board with the direction \<open>None\<close>: it reflects no move
  applied to the start board.  The last element holds the goal board.
\<close>

theorem solve_index_0_is_start:
  "solve \<lparr>height_and_width = 3, board = [1,2,3,4,5,6,0,7,8]\<rparr> False False =
     Some (Inr (Path
       [\<lparr>move_direction = None,
         move_board = \<lparr>height_and_width = 3, board = [1,2,3,4,5,6,0,7,8]\<rparr>\<rparr>,
        \<lparr>move_direction = Some ''r'',
         move_board = \<lparr>height_and_width = 3, board = [1,2,3,4,5,6,7,0,8]\<rparr>\<rparr>,
        \<lparr>move_direction = Some ''r'',
         move_board = \<lparr>height_and_width = 3, board = [1,2,3,4,5,6,7,8,0]\<rparr>\<rparr>])) \<and>
   solvable \<lparr>height_and_width = 3, board = [1,2,3,4,5,6,0,7,8]\<rparr> = Inr True \<and>
   \<not> reflects_move \<lparr>height_and_width = 3, board = [1,2,3,4,5,6,0,7,8]\<rparr>
       \<lparr>move_direction = None,
        move_board = \<lparr>height_and_width = 3, board = [1,2,3,4,5,6,0,7,8]\<rparr>\<rparr> \<and>
   goal \<lparr>height_and_width = 3, board = [1,2,3,4,5,6,0,7,8]\<rparr> =
     \<lparr>height_and_width = 3, board = [1,2,3,4,5,6,7,8,0]\<rparr>"
  by code_simp

lemma traceback_ends_aux:
  assumes "traceback ibi st path = Some y"
  shows "\<forall>p. y = Inr p \<longrightarrow> path \<noteq> [] \<longrightarrow>
           p \<noteq> [] \<and> hd p = hd path \<and> item_key (last p) = item_key st"
proof (rule traceback.raw_induct [where P = "\<lambda>ibi st path y. \<forall>p. y = Inr p \<longrightarrow> path \<noteq> [] \<longrightarrow>
           p \<noteq> [] \<and> hd p = hd path \<and> item_key (last p) = item_key st", OF _ assms], goal_cases)
  case (1 tb ibi st path y)
  show ?case
  proof (cases "item_key (last path) \<noteq> item_key st")
    case True
    show ?thesis
    proof (intro allI impI)
      fix p assume y: "y = Inr p" and ne: "path \<noteq> []"
      obtain q where r: "tb ibi st (path @ [q]) = Some (Inr p)"
        using 1(2) True y by (auto split: option.splits)
      have "p \<noteq> [] \<and> hd p = hd (path @ [q]) \<and> item_key (last p) = item_key st"
        using 1(1) [OF r] by simp
      then show "p \<noteq> [] \<and> hd p = hd path \<and> item_key (last p) = item_key st"
        using ne by simp
    qed
  next
    case False
    then show ?thesis using 1(2) by auto
  qed
qed

lemma traceback_ends:
  assumes "traceback ibi st path = Some (Inr p)" and "path \<noteq> []"
  shows "p \<noteq> [] \<and> hd p = hd path \<and> item_key (last p) = item_key st"
  using traceback_ends_aux [OF assms(1)] assms(2) by simp

lemma solve_step_return:
  assumes "solve_step gl st give s = Some (Inr (Return r))"
    and "r = Path p \<or> r = PathAndMax p k"
  shows "p \<noteq> [] \<and> move_direction (hd p) = item_direction st \<and>
         board (move_board (hd p)) = board (item_board st) \<and>
         board (move_board (last p)) = board gl"
proof -
  from assms(1) obtain curr_item path where
    bg: "board_eq (item_board curr_item) gl"
    and tb: "traceback (st_item_by_idx s) st [curr_item] = Some (Inr path)"
    and r: "r = (if give then PathAndMax (rev (map mk_move path)) (st_max_queue_length s)
                 else Path (rev (map mk_move path)))"
    unfolding solve_step_def mk_move_def
    by (auto simp: Let_def split: sum.splits option.splits prod.splits if_splits)
  have pe: "path \<noteq> []" "hd path = curr_item" "item_key (last path) = item_key st"
    using traceback_ends [OF tb] by auto
  have p: "p = rev (map mk_move path)" using r assms(2) by (auto split: if_splits)
  have h: "hd p = mk_move (last path)" using pe(1) p by (simp add: hd_rev last_map)
  have l: "last p = mk_move (hd path)" using pe(1) p by (simp add: last_rev hd_map)
  show ?thesis using pe p h l bg
    by (auto simp: mk_move_def item_key_def board_eq_def)
qed

lemma solve_loop_path_aux:
  assumes "solve_loop gl st give s = Some y"
  shows "\<forall>r p k. y = Inr r \<longrightarrow> r = Path p \<or> r = PathAndMax p k \<longrightarrow>
         p \<noteq> [] \<and> move_direction (hd p) = item_direction st \<and>
         board (move_board (hd p)) = board (item_board st) \<and>
         board (move_board (last p)) = board gl"
proof (rule solve_loop.raw_induct [where P = "\<lambda>gl st give s y.
    \<forall>r p k. y = Inr r \<longrightarrow> r = Path p \<or> r = PathAndMax p k \<longrightarrow>
         p \<noteq> [] \<and> move_direction (hd p) = item_direction st \<and>
         board (move_board (hd p)) = board (item_board st) \<and>
         board (move_board (last p)) = board gl", OF _ assms], goal_cases)
  case (1 sl gl st give s y)
  show ?case
  proof (cases "0 < length (st_open s)")
    case False
    then show ?thesis using 1(2) by auto
  next
    case True
    then have c: "(case solve_step gl st give s of
           None \<Rightarrow> None | Some (Inl e) \<Rightarrow> Some (Inl e)
           | Some (Inr (Return r)) \<Rightarrow> Some (Inr r)
           | Some (Inr (Continue s')) \<Rightarrow> sl gl st give s') = Some y"
      using 1(2) by simp
    show ?thesis
    proof (cases "solve_step gl st give s")
      case None
      then show ?thesis using c by simp
    next
      case (Some a)
      show ?thesis
      proof (cases a)
        case (Inl e)
        then show ?thesis using c Some by auto
      next
        case (Inr sr)
        show ?thesis
        proof (cases sr)
          case (Return r')
          then have "y = Inr r'" using c Some Inr by simp
          then show ?thesis
            using solve_step_return [of gl st give s r'] Some Inr Return by blast
        next
          case (Continue s')
          then have "sl gl st give s' = Some y" using c Some Inr by simp
          then show ?thesis using 1(1) by blast
        qed
      qed
    qed
  qed
qed

lemma solve_loop_path:
  assumes "solve_loop gl st give s = Some (Inr r)" and "r = Path p \<or> r = PathAndMax p k"
  shows "p \<noteq> [] \<and> move_direction (hd p) = item_direction st \<and>
         board (move_board (hd p)) = board (item_board st) \<and>
         board (move_board (last p)) = board gl"
  using solve_loop_path_aux [OF assms(1)] assms(2) by blast

lemma solve_path_ends:
  assumes "solve b ignore_warning give = Some (Inr r)"
    and "r = Path p \<or> r = PathAndMax p k"
  shows "p \<noteq> [] \<and> move_direction (hd p) = None \<and>
         board (move_board (hd p)) = board b \<and>
         board (move_board (last p)) = board (goal b)"
proof -
  from assms(1) have ss: "solve_search b give = Some (Inr r)"
    by (auto simp: solve_def split: sum.splits if_splits)
  then obtain st where st: "item (goal b) 0 None b (-1) = Inr st"
    and sl: "solve_loop (goal b) st give (init_state st give) = Some (Inr r)"
    by (auto simp: solve_search_def split: sum.splits)
  have "item_direction st = None" "item_board st = b"
    using st by (auto simp: item_def split: sum.splits)
  then show ?thesis using solve_loop_path [OF sl assms(2)] by simp
qed

lemma linked_mono:
  assumes "linked st ibi it" and "ibi n = None"
  shows "linked st (ibi(n \<mapsto> a)) it"
  using assms by (auto simp: linked_def split: option.splits)

lemma solve_inv_init:
  "solve_inv st (height_and_width (item_board st)) (init_state st give)"
  by (auto simp: solve_inv_def init_state_def heappush_def linked_def split: if_splits)

lemma item_fields:
  assumes "item gl g d b p = Inr a"
  shows "item_board a = b" "item_direction a = d" "item_parent_index a = p" "item_g a = g"
  using assms by (auto simp: item_def split: sum.splits)

lemma add_successors_inv:
  assumes "solve_inv st w s"
    and "st_item_by_idx s curr_idx = Some par"
    and "\<forall>(d, b') \<in> set succs. height_and_width b' = w \<and>
           reflects_move (item_board par) \<lparr>move_direction = Some d, move_board = b'\<rparr>"
    and "add_successors gl g curr_idx succs s = Inr s'"
  shows "solve_inv st w s'"
  using assms
proof (induction succs arbitrary: s)
  case Nil
  then show ?case by simp
next
  case (Cons db rest)
  obtain d b' where db: "db = (d, b')" by (cases db)
  show ?case
  proof (cases "board b' \<in> st_visited s")
    case True
    then have "add_successors gl g curr_idx rest s = Inr s'"
      using Cons.prems(4) db by simp
    then show ?thesis using Cons.IH [of s] Cons.prems by simp
  next
    case False
    then obtain a where a: "item gl g (Some d) b' curr_idx = Inr a"
      and rec: "add_successors gl g curr_idx rest
                   (s\<lparr>st_visited := insert (board b') (st_visited s),
                      st_item_index := st_item_index s + 1,
                      st_idx_by_item := (st_idx_by_item s)(item_key a \<mapsto> st_item_index s),
                      st_item_by_idx := (st_item_by_idx s)(st_item_index s \<mapsto> a),
                      st_open := heappush (st_open s) a\<rparr>) = Inr s'"
      using Cons.prems(4) db by (auto simp: Let_def split: sum.splits)
    let ?n = "st_item_index s"
    let ?s1 = "s\<lparr>st_visited := insert (board b') (st_visited s),
                      st_item_index := st_item_index s + 1,
                      st_idx_by_item := (st_idx_by_item s)(item_key a \<mapsto> st_item_index s),
                      st_item_by_idx := (st_item_by_idx s)(st_item_index s \<mapsto> a),
                      st_open := heappush (st_open s) a\<rparr>"
    have inv: "solve_inv st w s" using Cons.prems(1) .
    have fresh: "st_item_by_idx s ?n = None"
    proof (cases "st_item_by_idx s ?n")
      case None then show ?thesis .
    next
      case (Some it)
      then have "?n < ?n" using inv unfolding solve_inv_def by blast
      then show ?thesis by simp
    qed
    have cn: "curr_idx \<noteq> ?n" using fresh Cons.prems(2) by auto
    have af: "item_board a = b'" "item_direction a = Some d" "item_parent_index a = curr_idx"
      using item_fields [OF a] by auto
    have bw: "height_and_width b' = w"
      and rf: "reflects_move (item_board par) \<lparr>move_direction = Some d, move_board = b'\<rparr>"
      using Cons.prems(3) db by auto
    have la: "linked st ((st_item_by_idx s)(?n \<mapsto> a)) a"
      using af rf cn Cons.prems(2) by (simp add: linked_def mk_move_def)
    have i1: "\<forall>k it. st_item_by_idx ?s1 k = Some it \<longrightarrow>
         k < st_item_index ?s1 \<and> height_and_width (item_board it) = w \<and>
         linked st (st_item_by_idx ?s1) it"
    proof (intro allI impI)
      fix k it assume k: "st_item_by_idx ?s1 k = Some it"
      show "k < st_item_index ?s1 \<and> height_and_width (item_board it) = w \<and>
         linked st (st_item_by_idx ?s1) it"
      proof (cases "k = ?n")
        case True
        then have "it = a" using k by simp
        then show ?thesis using True la af bw by simp
      next
        case False
        then have old: "st_item_by_idx s k = Some it" using k by simp
        then have "k < ?n" "height_and_width (item_board it) = w"
          "linked st (st_item_by_idx s) it"
          using inv unfolding solve_inv_def by blast+
        then show ?thesis
          using linked_mono [of st "st_item_by_idx s" it ?n a] fresh by simp
      qed
    qed
    have i2: "\<forall>it \<in> set (st_open ?s1).
         height_and_width (item_board it) = w \<and> linked st (st_item_by_idx ?s1) it"
    proof
      fix it assume "it \<in> set (st_open ?s1)"
      then have "it = a \<or> it \<in> set (st_open s)" by (auto simp: heappush_def)
      then show "height_and_width (item_board it) = w \<and> linked st (st_item_by_idx ?s1) it"
      proof
        assume "it = a" then show ?thesis using la af bw by simp
      next
        assume "it \<in> set (st_open s)"
        then have "height_and_width (item_board it) = w" "linked st (st_item_by_idx s) it"
          using inv unfolding solve_inv_def by blast+
        then show ?thesis
          using linked_mono [of st "st_item_by_idx s" it ?n a] fresh by simp
      qed
    qed
    have i3: "\<forall>key k. st_idx_by_item ?s1 key = Some k \<longrightarrow>
         (\<exists>it. st_item_by_idx ?s1 k = Some it \<and> item_key it = key)"
    proof (intro allI impI)
      fix key k assume kk: "st_idx_by_item ?s1 key = Some k"
      show "\<exists>it. st_item_by_idx ?s1 k = Some it \<and> item_key it = key"
      proof (cases "key = item_key a")
        case True
        then show ?thesis using kk by simp
      next
        case False
        then have "st_idx_by_item s key = Some k" using kk by simp
        then obtain it where it: "st_item_by_idx s k = Some it" "item_key it = key"
          using inv unfolding solve_inv_def by blast
        then have "k \<noteq> ?n" using fresh by auto
        then show ?thesis using it by simp
      qed
    qed
    have inv1: "solve_inv st w ?s1"
      unfolding solve_inv_def using i1 i2 i3 by blast
    have par1: "st_item_by_idx ?s1 curr_idx = Some par"
      using cn Cons.prems(2) by simp
    have rest: "\<forall>(d, b') \<in> set rest. height_and_width b' = w \<and>
           reflects_move (item_board par) \<lparr>move_direction = Some d, move_board = b'\<rparr>"
      using Cons.prems(3) by simp
    show ?thesis using Cons.IH [OF inv1 par1 rest rec] .
  qed
qed

lemma least_mem: "least m xs = Inr r \<Longrightarrow> r \<in> set (m # xs)"
proof (induction xs arbitrary: m)
  case Nil
  then show ?case by simp
next
  case (Cons a xs)
  then obtain lt where "least (if lt then a else m) xs = Inr r"
    by (auto split: sum.splits)
  then have "r \<in> set ((if lt then a else m) # xs)" using Cons.IH by blast
  then show ?case by (auto split: if_splits)
qed

lemma heappop_mem:
  assumes "heappop opn = Inr (m, rest)"
  shows "m \<in> set opn" "set rest \<subseteq> set opn"
proof -
  from assms obtain a as where o: "opn = a # as" and l: "least a as = Inr m"
    and r: "rest = remove1 m opn"
    by (auto simp: heappop_def split: list.splits sum.splits)
  show "m \<in> set opn" using least_mem [OF l] o by simp
  show "set rest \<subseteq> set opn" unfolding r by (rule set_remove1_subset)
qed

lemma successors_loop_moves:
  assumes "successors_loop b ds out = Inr res"
    and "\<forall>(d, b') \<in> set out. \<exists>r. move_tile b d True = Inr (Some b', r)"
  shows "\<forall>(d, b') \<in> set res. \<exists>r. move_tile b d True = Inr (Some b', r)"
  using assms
proof (induction ds arbitrary: out)
  case Nil
  then show ?case by simp
next
  case (Cons d ds)
  show ?case
  proof (cases "move_tile b d True")
    case (Inl e)
    then show ?thesis using Cons.prems by simp
  next
    case (Inr pr)
    obtain ob r where pr: "pr = (ob, r)" by (cases pr)
    show ?thesis
    proof (cases ob)
      case None
      then show ?thesis using Cons Inr pr by simp
    next
      case (Some nb)
      then have "successors_loop b ds (out @ [(d, nb)]) = Inr res"
        using Cons.prems(1) Inr pr by simp
      moreover have "\<forall>(d, b') \<in> set (out @ [(d, nb)]). \<exists>r. move_tile b d True = Inr (Some b', r)"
        using Cons.prems(2) Inr pr Some by auto
      ultimately show ?thesis using Cons.IH by blast
    qed
  qed
qed

lemma successors_moves:
  assumes "successors b = Inr succs"
  shows "\<forall>(d, b') \<in> set succs. \<exists>r. move_tile b d True = Inr (Some b', r)"
proof -
  have "successors_loop b [UP, DOWN, LEFT, RIGHT] [] = Inr succs"
    using assms unfolding successors_def .
  then show ?thesis by (rule successors_loop_moves) simp
qed

lemma move_tile_new_width:
  assumes "move_tile b d True = Inr (Some b', r)"
  shows "height_and_width b' = height_and_width b"
  using assms unfolding move_tile_def
  by (auto simp: Let_def width_def split: sum.splits prod.splits if_splits)

lemma solve_step_inv:
  assumes inv: "solve_inv st w s"
    and step: "solve_step gl st give s = Some (Inr (Continue s'))"
  shows "solve_inv st w s'"
proof -
  from step obtain curr_item opn curr_idx succs s1 where
    hp: "heappop (st_open s) = Inr (curr_item, opn)"
    and ci: "st_idx_by_item s (item_key curr_item) = Some curr_idx"
    and sc: "successors (item_board curr_item) = Inr succs"
    and ad: "add_successors gl (item_g curr_item + 1) curr_idx succs (s\<lparr>st_open := opn\<rparr>) = Inr s1"
    and s': "s' = (if give then s1\<lparr>st_max_queue_length :=
                       max (st_max_queue_length s1) (int (length (st_open s1)))\<rparr> else s1)"
    unfolding solve_step_def
    by (auto simp: Let_def split: sum.splits option.splits prod.splits if_splits)
  have cm: "curr_item \<in> set (st_open s)" and sub: "set opn \<subseteq> set (st_open s)"
    using heappop_mem [OF hp] by auto
  obtain par where par: "st_item_by_idx s curr_idx = Some par"
    and pk: "item_key par = item_key curr_item"
    using inv ci unfolding solve_inv_def by blast
  have "height_and_width (item_board par) = w" "height_and_width (item_board curr_item) = w"
    using inv par cm unfolding solve_inv_def by blast+
  moreover have "board (item_board par) = board (item_board curr_item)"
    using pk by (simp add: item_key_def)
  ultimately have pb: "item_board par = item_board curr_item" by simp
  have inv0: "solve_inv st w (s\<lparr>st_open := opn\<rparr>)"
    using inv sub unfolding solve_inv_def by auto
  have par0: "st_item_by_idx (s\<lparr>st_open := opn\<rparr>) curr_idx = Some par"
    using par by simp
  have succ: "\<forall>(d, b') \<in> set succs. height_and_width b' = w \<and>
           reflects_move (item_board par) \<lparr>move_direction = Some d, move_board = b'\<rparr>"
  proof (intro ballI, clarify)
    fix d b' assume "(d, b') \<in> set succs"
    then obtain r where m: "move_tile (item_board curr_item) d True = Inr (Some b', r)"
      using successors_moves [OF sc] by blast
    have "height_and_width b' = w"
      using move_tile_new_width [OF m] \<open>height_and_width (item_board curr_item) = w\<close> by simp
    moreover have "reflects_move (item_board par) \<lparr>move_direction = Some d, move_board = b'\<rparr>"
      using m pb by (simp add: reflects_move_def board_eq_def)
    ultimately show "height_and_width b' = w \<and>
           reflects_move (item_board par) \<lparr>move_direction = Some d, move_board = b'\<rparr>"
      by simp
  qed
  have "solve_inv st w s1"
    using add_successors_inv [OF inv0 par0 succ ad] .
  then show ?thesis unfolding s' solve_inv_def by auto
qed

lemma traceback_chain_aux:
  assumes "traceback ibi st path = Some y"
  shows "\<forall>p. y = Inr p \<longrightarrow> path \<noteq> [] \<longrightarrow> successively follows path \<longrightarrow>
           linked st ibi (last path) \<longrightarrow>
           (\<forall>k it. ibi k = Some it \<longrightarrow> linked st ibi it) \<longrightarrow>
           successively follows p"
proof (rule traceback.raw_induct [where P = "\<lambda>ibi st path y.
    \<forall>p. y = Inr p \<longrightarrow> path \<noteq> [] \<longrightarrow> successively follows path \<longrightarrow>
           linked st ibi (last path) \<longrightarrow>
           (\<forall>k it. ibi k = Some it \<longrightarrow> linked st ibi it) \<longrightarrow>
           successively follows p", OF _ assms], goal_cases)
  case (1 tb ibi st path y)
  show ?case
  proof (cases "item_key (last path) \<noteq> item_key st")
    case True
    show ?thesis
    proof (intro allI impI)
      fix p assume y: "y = Inr p" and ne: "path \<noteq> []" and sc: "successively follows path"
        and ll: "linked st ibi (last path)"
        and al: "\<forall>k it. ibi k = Some it \<longrightarrow> linked st ibi it"
      obtain q where q: "ibi (item_parent_index (last path)) = Some q"
        and r: "tb ibi st (path @ [q]) = Some (Inr p)"
        using 1(2) True y by (auto split: option.splits)
      have f: "follows (last path) q"
        using ll True q by (simp add: linked_def follows_def)
      have sc': "successively follows (path @ [q])"
        using sc f ne by (simp add: successively_append_iff)
      have lq: "linked st ibi (last (path @ [q]))" using al q by simp
      show "successively follows p"
        using 1(1) [OF r] sc' lq al by simp
    qed
  next
    case False
    then show ?thesis using 1(2) by auto
  qed
qed

lemma solve_step_return_chain:
  assumes inv: "solve_inv st w s"
    and step: "solve_step gl st give s = Some (Inr (Return r))"
    and r: "r = Path p \<or> r = PathAndMax p k"
  shows "successively (\<lambda>m m'. reflects_move (move_board m) m') p"
proof -
  from step obtain curr_item opn path where
    hp: "heappop (st_open s) = Inr (curr_item, opn)"
    and tb: "traceback (st_item_by_idx s) st [curr_item] = Some (Inr path)"
    and r': "r = (if give then PathAndMax (rev (map mk_move path)) (st_max_queue_length s)
                 else Path (rev (map mk_move path)))"
    unfolding solve_step_def mk_move_def
    by (auto simp: Let_def split: sum.splits option.splits prod.splits if_splits)
  have cm: "curr_item \<in> set (st_open s)" using heappop_mem [OF hp] by auto
  have lc: "linked st (st_item_by_idx s) (last [curr_item])"
    using inv cm unfolding solve_inv_def by simp
  have al: "\<forall>k it. st_item_by_idx s k = Some it \<longrightarrow> linked st (st_item_by_idx s) it"
    using inv unfolding solve_inv_def by blast
  have sp: "successively follows path"
    using traceback_chain_aux [OF tb] lc al by simp
  have p: "p = rev (map mk_move path)" using r r' by (auto split: if_splits)
  have "successively (\<lambda>m m'. reflects_move (move_board m) m') (rev (map mk_move path)) =
        successively follows path"
    unfolding successively_rev successively_map follows_def
    by (simp add: mk_move_def)
  then show ?thesis using sp p by simp
qed

lemma traceback_last_aux:
  assumes "traceback ibi st path = Some y"
  shows "\<forall>p. y = Inr p \<longrightarrow> path \<noteq> [] \<longrightarrow>
           last p = last path \<or> (\<exists>k. ibi k = Some (last p))"
proof (rule traceback.raw_induct [where P = "\<lambda>ibi st path y.
    \<forall>p. y = Inr p \<longrightarrow> path \<noteq> [] \<longrightarrow>
           last p = last path \<or> (\<exists>k. ibi k = Some (last p))", OF _ assms], goal_cases)
  case (1 tb ibi st path y)
  show ?case
  proof (cases "item_key (last path) \<noteq> item_key st")
    case True
    show ?thesis
    proof (intro allI impI)
      fix p assume y: "y = Inr p" and ne: "path \<noteq> []"
      obtain q where q: "ibi (item_parent_index (last path)) = Some q"
        and r: "tb ibi st (path @ [q]) = Some (Inr p)"
        using 1(2) True y by (auto split: option.splits)
      have "last p = last (path @ [q]) \<or> (\<exists>k. ibi k = Some (last p))"
        using 1(1) [OF r] by simp
      then show "last p = last path \<or> (\<exists>k. ibi k = Some (last p))"
        using q by auto
    qed
  next
    case False
    then show ?thesis using 1(2) by auto
  qed
qed

lemma solve_step_return_start:
  assumes inv: "solve_inv st w s"
    and step: "solve_step gl st give s = Some (Inr (Return r))"
    and r: "r = Path p \<or> r = PathAndMax p k"
    and w: "height_and_width (item_board st) = w"
  shows "move_board (hd p) = item_board st"
proof -
  from step obtain curr_item opn path where
    hp: "heappop (st_open s) = Inr (curr_item, opn)"
    and tb: "traceback (st_item_by_idx s) st [curr_item] = Some (Inr path)"
    and r': "r = (if give then PathAndMax (rev (map mk_move path)) (st_max_queue_length s)
                 else Path (rev (map mk_move path)))"
    unfolding solve_step_def mk_move_def
    by (auto simp: Let_def split: sum.splits option.splits prod.splits if_splits)
  have cm: "curr_item \<in> set (st_open s)" using heappop_mem [OF hp] by auto
  have pe: "path \<noteq> []" "item_key (last path) = item_key st"
    using traceback_ends [OF tb] by auto
  have "last path = curr_item \<or> (\<exists>k. st_item_by_idx s k = Some (last path))"
    using traceback_last_aux [OF tb] by simp
  then have "height_and_width (item_board (last path)) = w"
    using inv cm unfolding solve_inv_def by blast
  moreover have "board (item_board (last path)) = board (item_board st)"
    using pe(2) by (simp add: item_key_def)
  ultimately have "item_board (last path) = item_board st" using w by simp
  moreover have p: "p = rev (map mk_move path)" using r r' by (auto split: if_splits)
  ultimately show ?thesis using pe(1) by (simp add: hd_rev last_map mk_move_def)
qed

lemma solve_loop_chain_aux:
  assumes "solve_loop gl st give s = Some y"
  shows "\<forall>r p k. solve_inv st (height_and_width (item_board st)) s \<longrightarrow> y = Inr r \<longrightarrow>
           r = Path p \<or> r = PathAndMax p k \<longrightarrow>
           move_board (hd p) = item_board st \<and>
           successively (\<lambda>m m'. reflects_move (move_board m) m') p"
proof (rule solve_loop.raw_induct [where P = "\<lambda>gl st give s y.
    \<forall>r p k. solve_inv st (height_and_width (item_board st)) s \<longrightarrow> y = Inr r \<longrightarrow>
           r = Path p \<or> r = PathAndMax p k \<longrightarrow>
           move_board (hd p) = item_board st \<and>
           successively (\<lambda>m m'. reflects_move (move_board m) m') p", OF _ assms], goal_cases)
  case (1 sl gl st give s y)
  show ?case
  proof (cases "0 < length (st_open s)")
    case False
    then show ?thesis using 1(2) by auto
  next
    case True
    then have c: "(case solve_step gl st give s of
           None \<Rightarrow> None | Some (Inl e) \<Rightarrow> Some (Inl e)
           | Some (Inr (Return r)) \<Rightarrow> Some (Inr r)
           | Some (Inr (Continue s')) \<Rightarrow> sl gl st give s') = Some y"
      using 1(2) by simp
    show ?thesis
    proof (cases "solve_step gl st give s")
      case None
      then show ?thesis using c by simp
    next
      case (Some a)
      show ?thesis
      proof (cases a)
        case (Inl e)
        then show ?thesis using c Some by auto
      next
        case (Inr sr)
        show ?thesis
        proof (cases sr)
          case (Return r')
          then have y: "y = Inr r'" using c Some Inr by simp
          have st: "solve_step gl st give s = Some (Inr (Return r'))"
            using Some Inr Return by simp
          show ?thesis
            using solve_step_return_chain [OF _ st] solve_step_return_start [OF _ st] y
            by blast
        next
          case (Continue s')
          then have sl: "sl gl st give s' = Some y" using c Some Inr by simp
          have st: "solve_step gl st give s = Some (Inr (Continue s'))"
            using Some Inr Continue by simp
          show ?thesis
            using 1(1) [OF sl] solve_step_inv [OF _ st] by blast
        qed
      qed
    qed
  qed
qed

lemma solve_path_shape:
  assumes "solve b ignore_warning give = Some (Inr r)"
    and "r = Path p \<or> r = PathAndMax p k"
  shows "p \<noteq> [] \<and> hd p = \<lparr>move_direction = None, move_board = b\<rparr> \<and>
         successively (\<lambda>m m'. reflects_move (move_board m) m') p \<and>
         board (move_board (last p)) = board (goal b)"
proof -
  from assms(1) have ss: "solve_search b give = Some (Inr r)"
    by (auto simp: solve_def split: sum.splits if_splits)
  then obtain st where st: "item (goal b) 0 None b (-1) = Inr st"
    and sl: "solve_loop (goal b) st give (init_state st give) = Some (Inr r)"
    by (auto simp: solve_search_def split: sum.splits)
  have f: "item_direction st = None" "item_board st = b"
    using item_fields [OF st] by auto
  have e: "p \<noteq> []" "move_direction (hd p) = None"
    "board (move_board (last p)) = board (goal b)"
    using solve_loop_path [OF sl assms(2)] f by auto
  have c: "move_board (hd p) = b"
    "successively (\<lambda>m m'. reflects_move (move_board m) m') p"
    using solve_loop_chain_aux [OF sl] solve_inv_init [of st give] assms(2) f by blast+
  have "hd p = \<lparr>move_direction = None, move_board = b\<rparr>"
    using e(2) c(1) by (cases "hd p") simp
  then show ?thesis using e c by simp
qed

lemma goal_cells:
  assumes "0 < height_and_width b"
  shows "board (goal b) = [1..size_b b - 1] @ [0]"
proof -
  have sz: "1 \<le> size_b b" using assms by (simp add: size_b_def)
  have "[1..size_b b] = [1..size_b b - 1] @ [size_b b]"
    using sz upto_rec2 [of 1 "size_b b"] by simp
  moreover have "map (\<lambda>i. if i \<noteq> size_b b then i else EMPTY_TILE) [1..size_b b - 1] =
      [1..size_b b - 1]"
    by (rule map_idI) auto
  ultimately show ?thesis by (simp add: goal_def Let_def EMPTY_TILE_def)
qed

lemma valid_goal:
  assumes "valid_board b"
  shows "valid_board (goal b)" "height_and_width (goal b) = height_and_width b"
proof -
  have n: "0 < height_and_width b" using assms by (simp add: valid_board_def)
  show hw: "height_and_width (goal b) = height_and_width b"
    by (simp add: goal_def Let_def width_def)
  have sz: "size_b (goal b) = size_b b" using hw by (simp add: size_b_def)
  have s1: "1 \<le> size_b b" using n by (simp add: size_b_def)
  have "[0..size_b b - 1] = 0 # [1..size_b b - 1]"
    using s1 upto_rec1 [of 0 "size_b b - 1"] by simp
  then have "mset [0..size_b b - 1] = mset (board (goal b))"
    by (simp add: goal_cells [OF n])
  then have "sort (board (goal b)) = [0..size_b b - 1]"
    by (intro properties_for_sort) simp_all
  then show "valid_board (goal b)" using n hw sz by (simp add: valid_board_def)
qed

lemma move_tile_total:
  assumes v: "valid_board b"
  shows "\<exists>res. move_tile b d new = Inr res"
proof -
  define n where "n = height_and_width b"
  define i0 where "i0 = pos_of (board b) EMPTY_TILE"
  define ox where "ox = int i0 mod n"
  define oy where "oy = int i0 div n"
  define xv where "xv = (if d = LEFT then ox - 1 else if d = RIGHT then ox + 1 else ox)"
  define yv where "yv = (if d = LEFT \<or> d = RIGHT then oy
                     else if d = UP then oy - 1
                     else if d = DOWN then oy + 1 else oy)"
  have len: "int (length (board b)) = n ^ 2"
    using valid_board_length [OF v] by (simp add: size_b_def n_def)
  have i0len: "i0 < length (board b)"
    unfolding i0_def using valid_board_empty_in [OF v] by (rule pos_of_less)
  have xy: "xy b EMPTY_TILE = Inr (ox, oy)"
    using xy_empty [OF v] by (simp add: ox_def oy_def i0_def n_def width_def)
  have old: "n * oy + ox = int i0" unfolding ox_def oy_def by simp
  show ?thesis
  proof (cases "-1 < xv \<and> xv < n \<and> -1 < yv \<and> yv < n")
    case False
    then have "move_tile b d new = Inr (None, b)"
      unfolding move_tile_def xy
      by (simp add: Let_def xv_def yv_def width_def height_def n_def)
    then show ?thesis by simp
  next
    case True
    then have b: "0 \<le> xv" "xv < n" "0 \<le> yv" "yv < n" by auto
    have idx: "\<not> n * yv + xv < 0" "n * yv + xv < n ^ 2"
      using grid_index_bound [OF b] by auto
    show ?thesis
      unfolding move_tile_def xy
      using True idx i0len old len
      by (simp add: Let_def xy_to_idx_def width_def height_def flip: n_def xv_def yv_def)
  qed
qed

lemma successors_loop_total:
  assumes "valid_board b"
  shows "\<exists>res. successors_loop b ds out = Inr res"
proof (induction ds arbitrary: out)
  case Nil
  then show ?case by simp
next
  case (Cons d ds)
  obtain ob r where m: "move_tile b d True = Inr (ob, r)"
    using move_tile_total [OF assms, of d True] by (metis surj_pair)
  show ?case using Cons.IH m by (cases ob) auto
qed

lemma successors_total: "valid_board b \<Longrightarrow> \<exists>succs. successors b = Inr succs"
  unfolding successors_def by (rule successors_loop_total)

lemma m_dist_total:
  assumes "valid_board b1" "valid_board b2" "size_b b1 = size_b b2"
    and "0 \<le> t" "t < size_b b1"
  shows "\<exists>dd. m_dist b1 b2 t False = Inr dd"
proof -
  have "t \<in> set (board b1)" "t \<in> set (board b2)"
    using assms valid_board_set by auto
  then show ?thesis
    using assms(3,4,5)
    by (auto simp: m_dist_def valid_tile_num_def x_coord_valid y_coord_valid)
qed

lemma sum_gen_total:
  assumes "valid_board b1" "valid_board b2" "size_b b1 = size_b b2"
    and "\<forall>t \<in> set ts. 0 \<le> t \<and> t < size_b b1"
  shows "\<exists>h. sum_gen b1 b2 ts acc = Inr h"
  using assms(4)
proof (induction ts arbitrary: acc)
  case Nil
  then show ?case by simp
next
  case (Cons t ts)
  obtain dd where "m_dist b1 b2 t False = Inr dd"
    using m_dist_total [OF assms(1,2,3), of t] Cons.prems by auto
  then show ?case using Cons by simp
qed

lemma item_total:
  assumes "valid_board b1" "valid_board gl" "height_and_width b1 = height_and_width gl"
  shows "\<exists>a. item gl g d b1 p = Inr a"
proof -
  have sz: "size_b b1 = size_b gl" using assms(3) by (simp add: size_b_def)
  obtain h where "sum_gen b1 gl [0..size_b b1 - 1] 0 = Inr h"
    using sum_gen_total [OF assms(1,2) sz, of "[0..size_b b1 - 1]" 0] by auto
  then show ?thesis using sz by (simp add: item_def sum_m_dists_def)
qed

lemma new_items_fresh:
  "a \<in> set (new_items gl g ci succs vis) \<Longrightarrow>
   cells_of a \<notin> vis \<and> (\<exists>d. (d, item_board a) \<in> set succs \<and>
     item gl g (Some d) (item_board a) ci = Inr a)"
proof (induction gl g ci succs vis rule: new_items.induct)
  case (1 gl g ci vis)
  then show ?case by simp
next
  case (2 gl g ci d b' rest vis)
  show ?case
  proof (cases "board b' \<in> vis")
    case True
    then show ?thesis using 2 by auto
  next
    case False
    show ?thesis
    proof (cases "item gl g (Some d) b' ci")
      case (Inl e)
      then show ?thesis using 2(3) False by simp
    next
      case (Inr a')
      then have "a = a' \<or> a \<in> set (new_items gl g ci rest (insert (board b') vis))"
        using 2(3) False by simp
      then show ?thesis
      proof
        assume "a = a'"
        then show ?thesis using Inr False item_fields(1) [OF Inr] by (auto simp: cells_of_def)
      next
        assume "a \<in> set (new_items gl g ci rest (insert (board b') vis))"
        then show ?thesis using 2(2) [OF False Inr] by auto
      qed
    qed
  qed
qed

lemma new_items_distinct: "distinct (map cells_of (new_items gl g ci succs vis))"
proof (induction gl g ci succs vis rule: new_items.induct)
  case (1 gl g ci vis)
  then show ?case by simp
next
  case (2 gl g ci d b' rest vis)
  show ?case
  proof (cases "board b' \<in> vis")
    case True
    then show ?thesis using 2 by simp
  next
    case False
    show ?thesis
    proof (cases "item gl g (Some d) b' ci")
      case (Inl e)
      then show ?thesis using False by simp
    next
      case (Inr a')
      have "cells_of a' = board b'" using item_fields(1) [OF Inr] by (simp add: cells_of_def)
      moreover have "\<forall>a \<in> set (new_items gl g ci rest (insert (board b') vis)).
          cells_of a \<noteq> board b'"
        using new_items_fresh by blast
      ultimately show ?thesis using 2(2) [OF False Inr] False Inr by auto
    qed
  qed
qed

lemma with_successor_simps [simp]:
  "st_visited (with_successor s b' a) = insert (board b') (st_visited s)"
  "st_item_index (with_successor s b' a) = st_item_index s + 1"
  "st_idx_by_item (with_successor s b' a) = (st_idx_by_item s)(item_key a \<mapsto> st_item_index s)"
  "st_item_by_idx (with_successor s b' a) = (st_item_by_idx s)(st_item_index s \<mapsto> a)"
  "st_open (with_successor s b' a) = st_open s @ [a]"
  "st_max_queue_length (with_successor s b' a) = st_max_queue_length s"
  by (simp_all add: with_successor_def heappush_def)

lemma add_successors_fresh:
  assumes "add_successors gl g ci ((d, b') # rest) s = Inr s'" and "board b' \<notin> st_visited s"
  obtains a where "item gl g (Some d) b' ci = Inr a"
    and "add_successors gl g ci rest (with_successor s b' a) = Inr s'"
  using assms by (auto simp: Let_def with_successor_def split: sum.splits)

lemma add_successors_seen:
  assumes "add_successors gl g ci ((d, b') # rest) s = Inr s'" and "board b' \<in> st_visited s"
  shows "add_successors gl g ci rest s = Inr s'"
  using assms by simp

lemma add_successors_open:
  "add_successors gl g ci succs s = Inr s' \<Longrightarrow>
   st_open s' = st_open s @ new_items gl g ci succs (st_visited s)"
proof (induction succs arbitrary: s)
  case Nil
  then show ?case by simp
next
  case (Cons db rest)
  obtain d b' where db: "db = (d, b')" by (cases db)
  show ?case
  proof (cases "board b' \<in> st_visited s")
    case True
    then show ?thesis using Cons db by simp
  next
    case False
    obtain a where a: "item gl g (Some d) b' ci = Inr a"
      and rec: "add_successors gl g ci rest (with_successor s b' a) = Inr s'"
      using add_successors_fresh [OF Cons.prems [unfolded db] False] by blast
    show ?thesis using Cons.IH [OF rec] db False a by simp
  qed
qed

lemma add_successors_visited:
  "add_successors gl g ci succs s = Inr s' \<Longrightarrow>
   st_visited s' = st_visited s \<union> cells_of ` set (new_items gl g ci succs (st_visited s))"
proof (induction succs arbitrary: s)
  case Nil
  then show ?case by simp
next
  case (Cons db rest)
  obtain d b' where db: "db = (d, b')" by (cases db)
  show ?case
  proof (cases "board b' \<in> st_visited s")
    case True
    then show ?thesis using Cons db by simp
  next
    case False
    obtain a where a: "item gl g (Some d) b' ci = Inr a"
      and rec: "add_successors gl g ci rest (with_successor s b' a) = Inr s'"
      using add_successors_fresh [OF Cons.prems [unfolded db] False] by blast
    have "cells_of a = board b'" using item_fields(1) [OF a] by (simp add: cells_of_def)
    then show ?thesis using Cons.IH [OF rec] db False a by simp
  qed
qed

lemma add_successors_covers:
  "add_successors gl g ci succs s = Inr s' \<Longrightarrow>
   st_visited s \<subseteq> st_visited s' \<and> (\<forall>(d, b') \<in> set succs. board b' \<in> st_visited s')"
proof (induction succs arbitrary: s)
  case Nil
  then show ?case by simp
next
  case (Cons db rest)
  obtain d b' where db: "db = (d, b')" by (cases db)
  show ?case
  proof (cases "board b' \<in> st_visited s")
    case True
    then have "add_successors gl g ci rest s = Inr s'" using Cons.prems db by simp
    then show ?thesis using Cons.IH [of s] True db by auto
  next
    case False
    obtain a where a: "item gl g (Some d) b' ci = Inr a"
      and rec: "add_successors gl g ci rest (with_successor s b' a) = Inr s'"
      using add_successors_fresh [OF Cons.prems [unfolded db] False] by blast
    show ?thesis using Cons.IH [OF rec] db by auto
  qed
qed

lemma add_successors_index:
  "add_successors gl g ci succs s = Inr s' \<Longrightarrow>
   st_item_index s' = st_item_index s + int (length (new_items gl g ci succs (st_visited s)))"
proof (induction succs arbitrary: s)
  case Nil
  then show ?case by simp
next
  case (Cons db rest)
  obtain d b' where db: "db = (d, b')" by (cases db)
  show ?case
  proof (cases "board b' \<in> st_visited s")
    case True
    then show ?thesis using Cons db by simp
  next
    case False
    obtain a where a: "item gl g (Some d) b' ci = Inr a"
      and rec: "add_successors gl g ci rest (with_successor s b' a) = Inr s'"
      using add_successors_fresh [OF Cons.prems [unfolded db] False] by blast
    show ?thesis using Cons.IH [OF rec] db False a by simp
  qed
qed

lemma add_successors_max:
  "add_successors gl g ci succs s = Inr s' \<Longrightarrow>
   st_max_queue_length s' = st_max_queue_length s"
proof (induction succs arbitrary: s)
  case Nil
  then show ?case by simp
next
  case (Cons db rest)
  obtain d b' where db: "db = (d, b')" by (cases db)
  show ?case
  proof (cases "board b' \<in> st_visited s")
    case True
    then show ?thesis using Cons db by simp
  next
    case False
    obtain a where a: "item gl g (Some d) b' ci = Inr a"
      and rec: "add_successors gl g ci rest (with_successor s b' a) = Inr s'"
      using add_successors_fresh [OF Cons.prems [unfolded db] False] by blast
    show ?thesis using Cons.IH [OF rec] by simp
  qed
qed

lemma add_successors_by_idx:
  "add_successors gl g ci succs s = Inr s' \<Longrightarrow>
   st_item_by_idx s' k =
     (if st_item_index s \<le> k \<and>
         k < st_item_index s + int (length (new_items gl g ci succs (st_visited s)))
      then Some (new_items gl g ci succs (st_visited s) ! nat (k - st_item_index s))
      else st_item_by_idx s k)"
proof (induction succs arbitrary: s)
  case Nil
  then show ?case by auto
next
  case (Cons db rest)
  obtain d b' where db: "db = (d, b')" by (cases db)
  show ?case
  proof (cases "board b' \<in> st_visited s")
    case True
    then show ?thesis using Cons db by simp
  next
    case False
    obtain a where a: "item gl g (Some d) b' ci = Inr a"
      and rec: "add_successors gl g ci rest (with_successor s b' a) = Inr s'"
      using add_successors_fresh [OF Cons.prems [unfolded db] False] by blast
    let ?new' = "new_items gl g ci rest (insert (board b') (st_visited s))"
    have ih: "st_item_by_idx s' k =
     (if st_item_index s + 1 \<le> k \<and> k < st_item_index s + 1 + int (length ?new')
      then Some (?new' ! nat (k - (st_item_index s + 1)))
      else ((st_item_by_idx s)(st_item_index s \<mapsto> a)) k)"
      using Cons.IH [OF rec] by simp
    have new: "new_items gl g ci (db # rest) (st_visited s) = a # ?new'"
      using db False a by simp
    show ?thesis
    proof (cases "k = st_item_index s")
      case True
      then show ?thesis unfolding ih new by simp
    next
      case False
      have "nat (k - st_item_index s) = Suc (nat (k - (st_item_index s + 1)))"
        if "st_item_index s + 1 \<le> k"
        using that by linarith
      then show ?thesis unfolding ih new using False by auto
    qed
  qed
qed

lemma add_successors_keys:
  "add_successors gl g ci succs s = Inr s' \<Longrightarrow>
   (\<forall>key. st_idx_by_item s key \<noteq> None \<longrightarrow> st_idx_by_item s' key \<noteq> None) \<and>
   (\<forall>a \<in> set (new_items gl g ci succs (st_visited s)). st_idx_by_item s' (item_key a) \<noteq> None)"
proof (induction succs arbitrary: s)
  case Nil
  then show ?case by simp
next
  case (Cons db rest)
  obtain d b' where db: "db = (d, b')" by (cases db)
  show ?case
  proof (cases "board b' \<in> st_visited s")
    case True
    then show ?thesis using Cons db by simp
  next
    case False
    obtain a where a: "item gl g (Some d) b' ci = Inr a"
      and rec: "add_successors gl g ci rest (with_successor s b' a) = Inr s'"
      using add_successors_fresh [OF Cons.prems [unfolded db] False] by blast
    have new: "new_items gl g ci (db # rest) (st_visited s) =
        a # new_items gl g ci rest (insert (board b') (st_visited s))"
      using db False a by simp
    have ih1: "\<forall>key. st_idx_by_item (with_successor s b' a) key \<noteq> None \<longrightarrow>
                st_idx_by_item s' key \<noteq> None"
      using Cons.IH [OF rec] by (rule conjunct1)
    have ih2: "\<forall>a \<in> set (new_items gl g ci rest (insert (board b') (st_visited s))).
         st_idx_by_item s' (item_key a) \<noteq> None"
      using conjunct2 [OF Cons.IH [OF rec]] by simp
    have k1: "st_idx_by_item (with_successor s b' a) (item_key a) \<noteq> None" by simp
    have ka: "st_idx_by_item s' (item_key a) \<noteq> None"
      using ih1 k1 by blast
    have old: "st_idx_by_item s' key \<noteq> None" if "st_idx_by_item s key \<noteq> None" for key
    proof -
      have "st_idx_by_item (with_successor s b' a) key \<noteq> None"
        using that by simp
      then show ?thesis using ih1 by blast
    qed
    show ?thesis unfolding new using ih2 ka old by auto
  qed
qed

lemma add_successors_total:
  assumes "valid_board gl"
    and "\<forall>(d, b') \<in> set succs. valid_board b' \<and> height_and_width b' = height_and_width gl"
  shows "\<exists>s'. add_successors gl g ci succs s = Inr s'"
  using assms(2)
proof (induction succs arbitrary: s)
  case Nil
  then show ?case by simp
next
  case (Cons db rest)
  obtain d b' where db: "db = (d, b')" by (cases db)
  have vb: "valid_board b'" "height_and_width b' = height_and_width gl"
    using Cons.prems db by auto
  obtain a where a: "item gl g (Some d) b' ci = Inr a"
    using item_total [OF vb(1) assms(1) vb(2)] by blast
  show ?case using Cons.IH [of s] Cons.IH [of "with_successor s b' a"] Cons.prems db a
    by (auto simp: Let_def with_successor_def)
qed

lemma item_less_total:
  assumes "item_direction a \<noteq> None" "item_direction c \<noteq> None"
  shows "\<exists>v. item_less a c = Inr v"
  using assms by (auto simp: item_less_def)

lemma least_total:
  assumes "item_direction m \<noteq> None" "\<forall>a \<in> set xs. item_direction a \<noteq> None"
  shows "\<exists>r. least m xs = Inr r"
  using assms
proof (induction xs arbitrary: m)
  case Nil
  then show ?case by simp
next
  case (Cons a xs)
  obtain v where v: "item_less a m = Inr v"
    using item_less_total [of a m] Cons.prems by auto
  have "item_direction (if v then a else m) \<noteq> None" using Cons.prems by simp
  then obtain r where "least (if v then a else m) xs = Inr r"
    using Cons.IH [of "if v then a else m"] Cons.prems by auto
  then show ?case using v by simp
qed

lemma heappop_total:
  assumes "opn \<noteq> []" and "opn = [st] \<or> (\<forall>a \<in> set opn. item_direction a \<noteq> None)"
  shows "\<exists>m rest. heappop opn = Inr (m, rest)"
proof -
  obtain a as where o: "opn = a # as" using assms(1) by (cases opn) auto
  have "\<exists>r. least a as = Inr r"
  proof (cases "opn = [st]")
    case True
    then show ?thesis using o by simp
  next
    case False
    then have "item_direction a \<noteq> None" "\<forall>c \<in> set as. item_direction c \<noteq> None"
      using assms(2) o by auto
    then show ?thesis by (rule least_total)
  qed
  then show ?thesis using o by (auto simp: heappop_def)
qed

lemma heappop_length:
  assumes "heappop opn = Inr (m, rest)"
  shows "length opn = Suc (length rest)"
proof -
  have m: "m \<in> set opn" using heappop_mem(1) [OF assms] .
  have "rest = remove1 m opn"
    using assms by (auto simp: heappop_def split: list.splits sum.splits)
  then have "length rest = length opn - 1" using m by (simp add: length_remove1)
  moreover have "0 < length opn" using m by (cases opn) auto
  ultimately show ?thesis by simp
qed

lemma traceback_from_index:
  assumes dom: "\<forall>k. (ibi k \<noteq> None) = (0 \<le> k \<and> k < n)"
    and zero: "ibi 0 = Some st"
    and par: "\<forall>k a. ibi k = Some a \<longrightarrow> 0 < k \<longrightarrow>
                0 \<le> item_parent_index a \<and> item_parent_index a < k"
  shows "ibi (int k) = Some a \<Longrightarrow> \<exists>p. traceback ibi st (path @ [a]) = Some (Inr p)"
proof (induction k arbitrary: a path rule: less_induct)
  case (less k)
  show ?case
  proof (cases "item_key a = item_key st")
    case True
    then show ?thesis by (subst traceback.simps) simp
  next
    case False
    have "k \<noteq> 0" using less.prems zero False by (cases k) auto
    then have kp: "0 < int k" by simp
    then have pb: "0 \<le> item_parent_index a" "item_parent_index a < int k"
      using par less.prems by blast+
    have "int k < n" using dom less.prems by (metis option.distinct(1))
    then have "ibi (item_parent_index a) \<noteq> None" using dom pb by simp
    then obtain q where q: "ibi (item_parent_index a) = Some q" by auto
    have "nat (item_parent_index a) < k" using pb by linarith
    moreover have "ibi (int (nat (item_parent_index a))) = Some q" using q pb by simp
    ultimately obtain p where "traceback ibi st ((path @ [a]) @ [q]) = Some (Inr p)"
      using less.IH by blast
    then show ?thesis using False q by (subst traceback.simps) simp
  qed
qed

lemma traceback_total:
  assumes inv: "search_inv b st s" and mem: "a \<in> set (st_open s)"
  shows "\<exists>p. traceback (st_item_by_idx s) st [a] = Some (Inr p)"
proof -
  let ?ibi = "st_item_by_idx s"
  have dom: "\<forall>k. (?ibi k \<noteq> None) = (0 \<le> k \<and> k < st_item_index s)"
    and zero: "?ibi 0 = Some st"
    and par: "\<forall>k a. ?ibi k = Some a \<longrightarrow> 0 < k \<longrightarrow>
                0 \<le> item_parent_index a \<and> item_parent_index a < k"
    using inv unfolding search_inv_def by blast+
  show ?thesis
  proof (cases "item_key a = item_key st")
    case True
    then show ?thesis by (subst traceback.simps) simp
  next
    case False
    then have "a \<noteq> st" by auto
    then have pb: "0 \<le> item_parent_index a" "item_parent_index a < st_item_index s"
      using inv mem unfolding search_inv_def by blast+
    then have "?ibi (item_parent_index a) \<noteq> None" using dom by simp
    then obtain q where q: "?ibi (item_parent_index a) = Some q" by auto
    then have "?ibi (int (nat (item_parent_index a))) = Some q" using pb by simp
    then obtain p where "traceback ?ibi st ([a] @ [q]) = Some (Inr p)"
      using traceback_from_index [OF dom zero par] by blast
    then show ?thesis using False q by (subst traceback.simps) simp
  qed
qed

lemma solve_step_Continue:
  assumes "solve_step gl st give s = Some (Inr (Continue s'))"
  obtains curr opn ci succs s1 where
    "heappop (st_open s) = Inr (curr, opn)"
    "st_idx_by_item s (item_key curr) = Some ci"
    "\<not> board_eq (item_board curr) gl"
    "successors (item_board curr) = Inr succs"
    "add_successors gl (item_g curr + 1) ci succs (s\<lparr>st_open := opn\<rparr>) = Inr s1"
    "s' = (if give then s1\<lparr>st_max_queue_length :=
                 max (st_max_queue_length s1) (int (length (st_open s1)))\<rparr> else s1)"
  using assms unfolding solve_step_def
  by (auto simp: Let_def split: sum.splits option.splits prod.splits if_splits)

lemma successors_valid:
  assumes v: "valid_board c" and sc: "successors c = Inr succs"
  shows "\<forall>(d, b') \<in> set succs. valid_board b' \<and> height_and_width b' = height_and_width c"
proof (intro ballI, clarify)
  fix d b' assume "(d, b') \<in> set succs"
  then obtain r where m: "move_tile c d True = Inr (Some b', r)"
    using successors_moves [OF sc] by blast
  show "valid_board b' \<and> height_and_width b' = height_and_width c"
    using move_tile_preserves [OF v m] move_tile_new_width [OF m] by simp
qed

lemma solve_step_total:
  assumes inv: "search_inv b st s" and vb: "valid_board b" and ne: "st_open s \<noteq> []"
  shows "\<exists>r. solve_step (goal b) st give s = Some (Inr r)"
proof -
  have d: "st_open s = [st] \<or> (\<forall>a \<in> set (st_open s). item_direction a \<noteq> None)"
    using inv unfolding search_inv_def by blast
  obtain curr opn where hp: "heappop (st_open s) = Inr (curr, opn)"
    using heappop_total [OF ne d] by blast
  have cm: "curr \<in> set (st_open s)" using heappop_mem(1) [OF hp] .
  have cv: "valid_board (item_board curr)"
    and "st_idx_by_item s (item_key curr) \<noteq> None"
    using inv cm unfolding search_inv_def by blast+
  then obtain ci where ci: "st_idx_by_item s (item_key curr) = Some ci" by auto
  have cw: "height_and_width (item_board curr) = height_and_width b"
    using inv cm unfolding search_inv_def solve_inv_def by blast
  show ?thesis
  proof (cases "board_eq (item_board curr) (goal b)")
    case True
    obtain p where "traceback (st_item_by_idx s) st [curr] = Some (Inr p)"
      using traceback_total [OF inv cm] by blast
    then show ?thesis using hp ci True by (simp add: solve_step_def Let_def)
  next
    case False
    obtain succs where sc: "successors (item_board curr) = Inr succs"
      using successors_total [OF cv] by blast
    have "\<forall>(d, b') \<in> set succs. valid_board b' \<and>
        height_and_width b' = height_and_width (goal b)"
      using successors_valid [OF cv sc] cw valid_goal(2) [OF vb] by auto
    then obtain s1 where
      "add_successors (goal b) (item_g curr + 1) ci succs (s\<lparr>st_open := opn\<rparr>) = Inr s1"
      using add_successors_total [OF valid_goal(1) [OF vb]] by blast
    then show ?thesis using hp ci False sc by (simp add: solve_step_def Let_def)
  qed
qed

lemma heappop_single: "heappop [a] = Inr (m, rest) \<Longrightarrow> rest = []"
  by (auto simp: heappop_def)

lemma solve_step_search_inv:
  assumes inv: "search_inv b st s" and vb: "valid_board b"
    and step: "solve_step gl st give s = Some (Inr (Continue s'))"
  shows "search_inv b st s'"
proof -
  obtain curr opn ci succs s1 where
    hp: "heappop (st_open s) = Inr (curr, opn)"
    and ci: "st_idx_by_item s (item_key curr) = Some ci"
    and sc: "successors (item_board curr) = Inr succs"
    and ad: "add_successors gl (item_g curr + 1) ci succs (s\<lparr>st_open := opn\<rparr>) = Inr s1"
    and s': "s' = (if give then s1\<lparr>st_max_queue_length :=
                 max (st_max_queue_length s1) (int (length (st_open s1)))\<rparr> else s1)"
    using solve_step_Continue [OF step] by metis
  define new where "new = new_items gl (item_g curr + 1) ci succs (st_visited s)"
  let ?n = "st_item_index s"
  have si: "solve_inv st (height_and_width b) s"
    and op: "\<forall>a \<in> set (st_open s). valid_board (item_board a) \<and>
          st_idx_by_item s (item_key a) \<noteq> None \<and>
          (a = st \<or> (0 \<le> item_parent_index a \<and> item_parent_index a < ?n))"
    and dr: "st_open s = [st] \<or> (\<forall>a \<in> set (st_open s). item_direction a \<noteq> None)"
    and dom: "\<forall>k. (st_item_by_idx s k \<noteq> None) = (0 \<le> k \<and> k < ?n)"
    and zero: "st_item_by_idx s 0 = Some st"
    and par: "\<forall>k a. st_item_by_idx s k = Some a \<longrightarrow> 0 < k \<longrightarrow>
          0 \<le> item_parent_index a \<and> item_parent_index a < k"
    and vis: "st_visited s \<subseteq> {cs. mset cs = mset (board b)}"
    using inv unfolding search_inv_def by blast+
  have npos: "0 < ?n" using dom zero by (metis option.distinct(1))
  have cm: "curr \<in> set (st_open s)" and sub: "set opn \<subseteq> set (st_open s)"
    using heappop_mem [OF hp] by auto
  have cv: "valid_board (item_board curr)" using op cm by blast
  have cw: "height_and_width (item_board curr) = height_and_width b"
    using si cm unfolding solve_inv_def by blast
  have cib: "0 \<le> ci" "ci < ?n"
  proof -
    obtain pa where "st_item_by_idx s ci = Some pa"
      using si ci unfolding solve_inv_def by blast
    then show "0 \<le> ci" "ci < ?n" using dom by (metis option.distinct(1))+
  qed
  have o1: "st_open s1 = opn @ new"
    using add_successors_open [OF ad] by (simp add: new_def)
  have v1: "st_visited s1 = st_visited s \<union> cells_of ` set new"
    using add_successors_visited [OF ad] by (simp add: new_def)
  have n1: "st_item_index s1 = ?n + int (length new)"
    using add_successors_index [OF ad] by (simp add: new_def)
  have i1: "st_item_by_idx s1 k =
     (if ?n \<le> k \<and> k < ?n + int (length new)
      then Some (new ! nat (k - ?n)) else st_item_by_idx s k)" for k
    using add_successors_by_idx [OF ad, of k] by (simp add: new_def)
  have k1: "\<forall>key. st_idx_by_item s key \<noteq> None \<longrightarrow> st_idx_by_item s1 key \<noteq> None"
    and k2: "\<forall>a \<in> set new. st_idx_by_item s1 (item_key a) \<noteq> None"
    using add_successors_keys [OF ad] by (simp_all add: new_def)
  have newp: "valid_board (item_board a) \<and> item_direction a \<noteq> None \<and>
      item_parent_index a = ci \<and> mset (cells_of a) = mset (board b)"
    if mem: "a \<in> set new" for a
  proof -
    obtain d where d: "(d, item_board a) \<in> set succs"
      and it: "item gl (item_g curr + 1) (Some d) (item_board a) ci = Inr a"
      using new_items_fresh [of a gl "item_g curr + 1" ci succs "st_visited s"] mem
      unfolding new_def by blast
    have va: "valid_board (item_board a)"
      and wa: "height_and_width (item_board a) = height_and_width b"
      using successors_valid [OF cv sc] d cw by auto
    have "size_b (item_board a) = size_b b" using wa by (simp add: size_b_def)
    then have "mset (cells_of a) = mset (board b)"
      using valid_board_mset [OF va] valid_board_mset [OF vb] by (simp add: cells_of_def)
    then show ?thesis using va item_fields [OF it] by simp
  qed
  have c1: "solve_inv st (height_and_width b) s'"
    using solve_step_inv [OF si step] .
  have c2: "\<forall>a \<in> set (st_open s1). valid_board (item_board a) \<and>
          st_idx_by_item s1 (item_key a) \<noteq> None \<and>
          (a = st \<or> (0 \<le> item_parent_index a \<and> item_parent_index a < st_item_index s1))"
  proof
    fix a assume "a \<in> set (st_open s1)"
    then have "a \<in> set opn \<or> a \<in> set new" using o1 by auto
    then show "valid_board (item_board a) \<and>
          st_idx_by_item s1 (item_key a) \<noteq> None \<and>
          (a = st \<or> (0 \<le> item_parent_index a \<and> item_parent_index a < st_item_index s1))"
    proof
      assume "a \<in> set opn"
      then have "a \<in> set (st_open s)" using sub by auto
      then show ?thesis using op k1 n1 by fastforce
    next
      assume a: "a \<in> set new"
      then show ?thesis using newp [OF a] k2 cib n1 by auto
    qed
  qed
  have c3: "\<forall>a \<in> set (st_open s1). item_direction a \<noteq> None"
  proof
    fix a assume "a \<in> set (st_open s1)"
    then have "a \<in> set opn \<or> a \<in> set new" using o1 by auto
    then show "item_direction a \<noteq> None"
    proof
      assume ao: "a \<in> set opn"
      show ?thesis
      proof (cases "st_open s = [st]")
        case True
        then have "opn = []" using hp heappop_single by metis
        then show ?thesis using ao by simp
      next
        case False
        then show ?thesis using dr ao sub by auto
      qed
    next
      assume a: "a \<in> set new"
      then show ?thesis using newp [OF a] by simp
    qed
  qed
  have c4: "\<forall>k. (st_item_by_idx s1 k \<noteq> None) = (0 \<le> k \<and> k < st_item_index s1)"
    using dom npos unfolding i1 n1 by auto
  have c5: "st_item_by_idx s1 0 = Some st"
    using zero npos unfolding i1 by simp
  have c6: "\<forall>k a. st_item_by_idx s1 k = Some a \<longrightarrow> 0 < k \<longrightarrow>
          0 \<le> item_parent_index a \<and> item_parent_index a < k"
  proof (intro allI impI)
    fix k a assume ka: "st_item_by_idx s1 k = Some a" and kp: "0 < k"
    show "0 \<le> item_parent_index a \<and> item_parent_index a < k"
    proof (cases "?n \<le> k \<and> k < ?n + int (length new)")
      case True
      then have "a = new ! nat (k - ?n)" using ka unfolding i1 by (auto split: if_splits)
      moreover have "nat (k - ?n) < length new" using True by linarith
      ultimately have "a \<in> set new" by simp
      then show ?thesis using newp cib True by auto
    next
      case False
      then have "st_item_by_idx s k = Some a" using ka unfolding i1 by (auto split: if_splits)
      then show ?thesis using par kp by blast
    qed
  qed
  have c7: "st_visited s1 \<subseteq> {cs. mset cs = mset (board b)}"
    unfolding v1 using vis newp by auto
  have "search_inv b st s1 \<longleftrightarrow> search_inv b st s'"
    unfolding s' search_inv_def solve_inv_def by simp
  moreover have "solve_inv st (height_and_width b) s1"
    using c1 unfolding s' solve_inv_def by (simp split: if_splits)
  ultimately show ?thesis
    unfolding search_inv_def [of b st s1] using c2 c3 c4 c5 c6 c7 by blast
qed

lemma solve_step_measure:
  assumes inv: "search_inv b st s" and vb: "valid_board b"
    and step: "solve_step gl st give s = Some (Inr (Continue s'))"
  shows "search_measure b s' < search_measure b s"
proof -
  obtain curr opn ci succs s1 where
    hp: "heappop (st_open s) = Inr (curr, opn)"
    and ad: "add_successors gl (item_g curr + 1) ci succs (s\<lparr>st_open := opn\<rparr>) = Inr s1"
    and s': "s' = (if give then s1\<lparr>st_max_queue_length :=
                 max (st_max_queue_length s1) (int (length (st_open s1)))\<rparr> else s1)"
    using solve_step_Continue [OF step] by metis
  define new where "new = new_items gl (item_g curr + 1) ci succs (st_visited s)"
  let ?U = "{cs. mset cs = mset (board b)}"
  let ?V = "cells_of ` set new"
  have o1: "st_open s1 = opn @ new"
    using add_successors_open [OF ad] by (simp add: new_def)
  have v1: "st_visited s1 = st_visited s \<union> ?V"
    using add_successors_visited [OF ad] by (simp add: new_def)
  have inv': "search_inv b st s'" using solve_step_search_inv [OF inv vb step] .
  have "st_visited s' = st_visited s1" unfolding s' by simp
  then have VU: "?V \<subseteq> ?U" using inv' v1 unfolding search_inv_def by auto
  have fresh: "?V \<inter> st_visited s = {}"
    using new_items_fresh [of _ gl "item_g curr + 1" ci succs "st_visited s"]
    unfolding new_def by auto
  have cV: "card ?V = length new"
    using new_items_distinct [of gl "item_g curr + 1" ci succs "st_visited s"]
    unfolding new_def by (metis distinct_card length_map set_map)
  have fU: "finite ?U" by (rule mset_eq_finite)
  have sub: "?V \<subseteq> ?U - st_visited s" using VU fresh by auto
  have "?U - st_visited s1 = (?U - st_visited s) - ?V" unfolding v1 by auto
  then have "card (?U - st_visited s1) = card (?U - st_visited s) - card ?V"
    using card_Diff_subset [OF _ sub] by (simp add: finite_subset [OF VU fU])
  moreover have "card ?V \<le> card (?U - st_visited s)"
    using card_mono [OF _ sub] fU by simp
  moreover have "length (st_open s) = Suc (length opn)" using heappop_length [OF hp] .
  moreover have "search_measure b s' = search_measure b s1"
    unfolding s' search_measure_def by simp
  ultimately show ?thesis using cV o1 unfolding search_measure_def by simp
qed

lemma solve_loop_total:
  assumes vb: "valid_board b"
  shows "search_inv b st s \<Longrightarrow> \<exists>r. solve_loop (goal b) st give s = Some (Inr r)"
proof (induction s rule: measure_induct_rule [where f = "search_measure b"])
  case (less s)
  show ?case
  proof (cases "st_open s = []")
    case True
    then show ?thesis by (subst solve_loop.simps) simp
  next
    case False
    obtain sr where sr: "solve_step (goal b) st give s = Some (Inr sr)"
      using solve_step_total [OF less.prems vb False] by blast
    show ?thesis
    proof (cases sr)
      case (Return r)
      then show ?thesis using sr False by (subst solve_loop.simps) simp
    next
      case (Continue s')
      then have st: "solve_step (goal b) st give s = Some (Inr (Continue s'))"
        using sr by simp
      have "\<exists>r. solve_loop (goal b) st give s' = Some (Inr r)"
        using less.IH [OF solve_step_measure [OF less.prems vb st]]
              solve_step_search_inv [OF less.prems vb st] by blast
      then show ?thesis using st False by (subst solve_loop.simps) simp
    qed
  qed
qed

lemma search_inv_init:
  assumes vb: "valid_board b" and st: "item gl 0 None b (-1) = Inr st"
  shows "search_inv b st (init_state st give)"
proof -
  have "item_board st = b" using item_fields [OF st] by simp
  then have "solve_inv st (height_and_width b) (init_state st give)"
    using solve_inv_init [of st give] by simp
  moreover have "valid_board (item_board st)" using vb \<open>item_board st = b\<close> by simp
  ultimately show ?thesis
    unfolding search_inv_def by (auto simp: init_state_def heappush_def)
qed

lemma closed_inv_init:
  assumes "item gl 0 None b (-1) = Inr st"
  shows "closed_inv b gl (init_state st give)"
  using item_fields(1) [OF assms]
  by (simp add: closed_inv_def init_state_def heappush_def cells_of_def)

lemma successors_loop_complete:
  assumes "successors_loop c ds out = Inr res"
  shows "set out \<subseteq> set res \<and>
         (\<forall>d \<in> set ds. \<forall>b' r. move_tile c d True = Inr (Some b', r) \<longrightarrow> (d, b') \<in> set res)"
  using assms
proof (induction ds arbitrary: out)
  case Nil
  then show ?case by simp
next
  case (Cons d ds)
  show ?case
  proof (cases "move_tile c d True")
    case (Inl e)
    then show ?thesis using Cons.prems by simp
  next
    case (Inr pr)
    obtain ob r where pr: "pr = (ob, r)" by (cases pr)
    show ?thesis
    proof (cases ob)
      case None
      then have "successors_loop c ds out = Inr res" using Cons.prems Inr pr by simp
      then show ?thesis using Cons.IH [of out] Inr pr None by auto
    next
      case (Some nb)
      then have "successors_loop c ds (out @ [(d, nb)]) = Inr res"
        using Cons.prems Inr pr by simp
      then show ?thesis using Cons.IH [of "out @ [(d, nb)]"] Inr pr Some by auto
    qed
  qed
qed

lemma successors_complete:
  assumes "successors c = Inr succs" and "d \<in> {UP, DOWN, LEFT, RIGHT}"
    and "move_tile c d True = Inr (Some b', r)"
  shows "(d, b') \<in> set succs"
proof -
  have "successors_loop c [UP, DOWN, LEFT, RIGHT] [] = Inr succs"
    using assms(1) unfolding successors_def .
  from successors_loop_complete [OF this] show ?thesis using assms(2,3) by auto
qed

lemma move_tile_other:
  assumes "d \<notin> {UP, DOWN, LEFT, RIGHT}" and "move_tile c d True = Inr (Some b', r)"
  shows "board b' = board c"
  using assms unfolding move_tile_def
  by (auto simp: Let_def split: sum.splits prod.splits if_splits)

lemma closed_reach:
  assumes cl: "\<forall>c \<in> G. \<forall>d b' r.
      move_tile \<lparr>height_and_width = w, board = c\<rparr> d True = Inr (Some b', r) \<longrightarrow> board b' \<in> G"
  shows "board c0 \<in> G \<Longrightarrow> height_and_width c0 = w \<Longrightarrow> apply_moves True c0 ds = Some c' \<Longrightarrow>
         board c' \<in> G"
proof (induction ds arbitrary: c0)
  case Nil
  then show ?case by simp
next
  case (Cons d ds)
  from Cons.prems(3) obtain b1 r where m: "move_tile c0 d True = Inr (Some b1, r)"
    and rest: "apply_moves True b1 ds = Some c'"
    by (auto split: sum.splits option.splits prod.splits)
  have c0: "c0 = \<lparr>height_and_width = w, board = board c0\<rparr>" using Cons.prems(2) by simp
  have "board b1 \<in> G" using cl Cons.prems(1) m c0 by metis
  moreover have "height_and_width b1 = w" using move_tile_new_width [OF m] Cons.prems(2) by simp
  ultimately show ?case using Cons.IH rest by blast
qed

lemma solve_step_closed_inv:
  assumes inv: "search_inv b st s" and cl: "closed_inv b gl s"
    and step: "solve_step gl st give s = Some (Inr (Continue s'))"
  shows "closed_inv b gl s'"
proof -
  obtain curr opn ci succs s1 where
    hp: "heappop (st_open s) = Inr (curr, opn)"
    and ng: "\<not> board_eq (item_board curr) gl"
    and sc: "successors (item_board curr) = Inr succs"
    and ad: "add_successors gl (item_g curr + 1) ci succs (s\<lparr>st_open := opn\<rparr>) = Inr s1"
    and s': "s' = (if give then s1\<lparr>st_max_queue_length :=
                 max (st_max_queue_length s1) (int (length (st_open s1)))\<rparr> else s1)"
    using solve_step_Continue [OF step] by metis
  define new where "new = new_items gl (item_g curr + 1) ci succs (st_visited s)"
  let ?G = "insert (board b) (st_visited s)"
  let ?O = "cells_of ` set (st_open s)"
  let ?V = "cells_of ` set new"
  let ?w = "height_and_width b"
  have o1: "st_open s1 = opn @ new"
    using add_successors_open [OF ad] by (simp add: new_def)
  have v1: "st_visited s1 = st_visited s \<union> ?V"
    using add_successors_visited [OF ad] by (simp add: new_def)
  have cov: "\<forall>(d, b') \<in> set succs. board b' \<in> st_visited s1"
    using add_successors_covers [OF ad] by simp
  have cm: "curr \<in> set (st_open s)" using heappop_mem(1) [OF hp] .
  have opn: "opn = remove1 curr (st_open s)"
    using hp by (auto simp: heappop_def split: list.splits sum.splits)
  have keep: "a \<in> set opn" if "a \<in> set (st_open s)" "a \<noteq> curr" for a
    using that unfolding opn by (simp add: in_set_remove1)
  have sub: "set opn \<subseteq> set (st_open s)" using heappop_mem(2) [OF hp] .
  have cw: "height_and_width (item_board curr) = ?w"
    using inv cm unfolding search_inv_def solve_inv_def by blast
  have crec: "item_board curr = \<lparr>height_and_width = ?w, board = cells_of curr\<rparr>"
    using cw by (simp add: cells_of_def)
  have OG: "?O \<subseteq> ?G"
    and CL: "\<forall>c \<in> ?G. c \<in> ?O \<or>
          (\<forall>d b' r. move_tile \<lparr>height_and_width = ?w, board = c\<rparr> d True
                       = Inr (Some b', r) \<longrightarrow> board b' \<in> ?G)"
    and GL: "board gl \<in> ?G \<longrightarrow> board gl \<in> ?O"
    using cl unfolding closed_inv_def by blast+
  let ?G1 = "insert (board b) (st_visited s1)"
  let ?O1 = "cells_of ` set (st_open s1)"
  have G1: "?G1 = ?G \<union> ?V" unfolding v1 by auto
  have O1: "?O1 = cells_of ` set opn \<union> ?V" unfolding o1 by auto
  have a1: "?O1 \<subseteq> ?G1" unfolding G1 O1 using OG sub by auto
  have currsucc: "board b' \<in> ?G1"
    if m: "move_tile \<lparr>height_and_width = ?w, board = cells_of curr\<rparr> d True = Inr (Some b', r)"
    for d b' r
  proof (cases "d \<in> {UP, DOWN, LEFT, RIGHT}")
    case True
    have "(d, b') \<in> set succs"
      using successors_complete [OF sc True] m crec by simp
    then show ?thesis using cov by auto
  next
    case False
    have "board b' = cells_of curr" using move_tile_other [OF False m] by simp
    moreover have "cells_of curr \<in> ?G" using OG cm by auto
    ultimately have "board b' \<in> ?G" by simp
    then show ?thesis unfolding G1 by (rule UnI1)
  qed
  have a2: "\<forall>c \<in> ?G1. c \<in> ?O1 \<or>
          (\<forall>d b' r. move_tile \<lparr>height_and_width = ?w, board = c\<rparr> d True
                       = Inr (Some b', r) \<longrightarrow> board b' \<in> ?G1)"
  proof
    fix c assume c: "c \<in> ?G1"
    show "c \<in> ?O1 \<or>
          (\<forall>d b' r. move_tile \<lparr>height_and_width = ?w, board = c\<rparr> d True
                       = Inr (Some b', r) \<longrightarrow> board b' \<in> ?G1)"
    proof (cases "c \<in> ?O1")
      case True
      then show ?thesis by simp
    next
      case False
      then have cG: "c \<in> ?G" using c unfolding G1 O1 by auto
      show ?thesis
      proof (cases "c \<in> ?O")
        case True
        then obtain a where a: "a \<in> set (st_open s)" "cells_of a = c" by auto
        have "a = curr" using keep [OF a(1)] False a(2) unfolding O1 by auto
        then show ?thesis using currsucc a(2) by blast
      next
        case nO: False
        then have "\<forall>d b' r. move_tile \<lparr>height_and_width = ?w, board = c\<rparr> d True
                       = Inr (Some b', r) \<longrightarrow> board b' \<in> ?G"
          using CL cG by blast
        then show ?thesis unfolding G1 by blast
      qed
    qed
  qed
  have a3: "board gl \<in> ?G1 \<longrightarrow> board gl \<in> ?O1"
  proof
    assume "board gl \<in> ?G1"
    then have "board gl \<in> ?V \<or> board gl \<in> ?G" unfolding G1 by auto
    then show "board gl \<in> ?O1"
    proof
      assume "board gl \<in> ?V" then show ?thesis unfolding O1 by simp
    next
      assume "board gl \<in> ?G"
      then obtain a where a: "a \<in> set (st_open s)" "cells_of a = board gl" using GL by auto
      have "a \<noteq> curr" using ng a(2) by (auto simp: board_eq_def cells_of_def)
      then show ?thesis using keep [OF a(1)] a(2) unfolding O1 by force
    qed
  qed
  have "closed_inv b gl s1" unfolding closed_inv_def using a1 a2 a3 by blast
  then show ?thesis unfolding s' closed_inv_def by simp
qed

lemma solve_step_Return:
  assumes "solve_step gl st give s = Some (Inr (Return r))"
  shows "\<exists>p. r = (if give then PathAndMax p (st_max_queue_length s) else Path p)"
  using assms unfolding solve_step_def
  by (auto simp: Let_def split: sum.splits option.splits prod.splits if_splits)

lemma no_result_unreachable_aux:
  assumes "solve_loop gl st give s = Some y"
  shows "search_inv b st s \<longrightarrow> closed_inv b gl s \<longrightarrow> valid_board b \<longrightarrow> y = Inr NoResult \<longrightarrow>
         (\<forall>ds c. apply_moves True b ds = Some c \<longrightarrow> board c \<noteq> board gl)"
proof (rule solve_loop.raw_induct [where P = "\<lambda>gl st give s y.
    search_inv b st s \<longrightarrow> closed_inv b gl s \<longrightarrow> valid_board b \<longrightarrow> y = Inr NoResult \<longrightarrow>
         (\<forall>ds c. apply_moves True b ds = Some c \<longrightarrow> board c \<noteq> board gl)", OF _ assms],
    goal_cases)
  case (1 sl gl st give s y)
  show ?case
  proof (intro impI)
    assume inv: "search_inv b st s" and cl: "closed_inv b gl s" and vb: "valid_board b"
      and y: "y = Inr NoResult"
    show "\<forall>ds c. apply_moves True b ds = Some c \<longrightarrow> board c \<noteq> board gl"
    proof (cases "st_open s = []")
      case True
      let ?G = "insert (board b) (st_visited s)"
      have CL: "\<forall>c \<in> ?G. \<forall>d b' r.
          move_tile \<lparr>height_and_width = height_and_width b, board = c\<rparr> d True
             = Inr (Some b', r) \<longrightarrow> board b' \<in> ?G"
        and GL: "board gl \<notin> ?G"
        using cl True unfolding closed_inv_def by auto
      show ?thesis
      proof (intro allI impI)
        fix ds c assume "apply_moves True b ds = Some c"
        then have "board c \<in> ?G"
          using closed_reach [OF CL, of b ds c] by simp
        then show "board c \<noteq> board gl" using GL by auto
      qed
    next
      case False
      then have c: "(case solve_step gl st give s of
           None \<Rightarrow> None | Some (Inl e) \<Rightarrow> Some (Inl e)
           | Some (Inr (Return r)) \<Rightarrow> Some (Inr r)
           | Some (Inr (Continue s')) \<Rightarrow> sl gl st give s') = Some y"
        using 1(2) by simp
      show ?thesis
      proof (cases "solve_step gl st give s")
        case None
        then show ?thesis using c by simp
      next
        case (Some a)
        show ?thesis
        proof (cases a)
          case (Inl e)
          then show ?thesis using c Some y by auto
        next
          case (Inr sr)
          show ?thesis
          proof (cases sr)
            case (Return r')
            then have "y = Inr r'" using c Some Inr by simp
            moreover have "r' \<noteq> NoResult"
              using solve_step_Return [of gl st give s r'] Some Inr Return
              by (auto split: if_splits)
            ultimately show ?thesis using y by simp
          next
            case (Continue s')
            then have sl: "sl gl st give s' = Some y" using c Some Inr by simp
            have st: "solve_step gl st give s = Some (Inr (Continue s'))"
              using Some Inr Continue by simp
            show ?thesis
              using 1(1) [OF sl] solve_step_search_inv [OF inv vb st]
                solve_step_closed_inv [OF inv cl st] vb y by blast
          qed
        qed
      qed
    qed
  qed
qed

lemma solve_search_total:
  assumes vb: "valid_board b"
  shows "\<exists>r. solve_search b give = Some (Inr r) \<and>
           (r = NoResult \<longrightarrow> (\<forall>ds c. apply_moves True b ds = Some c \<longrightarrow>
                                    board c \<noteq> board (goal b)))"
proof -
  obtain st where st: "item (goal b) 0 None b (-1) = Inr st"
    using item_total [OF vb valid_goal(1) [OF vb]] valid_goal(2) [OF vb] by metis
  have inv: "search_inv b st (init_state st give)"
    using search_inv_init [OF vb st] .
  have cl: "closed_inv b (goal b) (init_state st give)"
    using closed_inv_init [OF st] .
  obtain r where r: "solve_loop (goal b) st give (init_state st give) = Some (Inr r)"
    using solve_loop_total [OF vb inv] by blast
  have "r = NoResult \<longrightarrow> (\<forall>ds c. apply_moves True b ds = Some c \<longrightarrow>
                                    board c \<noteq> board (goal b))"
    using no_result_unreachable_aux [OF r, of b] inv cl vb by blast
  then show ?thesis using st r by (simp add: solve_search_def)
qed

text \<open>
  The list that \<open>solve\<close> returns, on every board.  Its first element is the start
  position itself, the pair of no direction and the start board; every further element
  holds a direction and the board that one legal move in this direction makes of the
  board of the element before it; and the board of the last element is the goal board.
  And \<open>solve\<close> does return such a list, without raising and without running forever,
  on every board of the data model that passes its two guards and from which some
  sequence of legal moves leads to the goal board.
\<close>

lemma solve_path_general:
  "(solve b ignore_warning give = Some (Inr r) \<and> (r = Path p \<or> r = PathAndMax p k) \<longrightarrow>
      p \<noteq> [] \<and> hd p = \<lparr>move_direction = None, move_board = b\<rparr> \<and>
      successively (\<lambda>m m'. reflects_move (move_board m) m') p \<and>
      board (move_board (last p)) = board (goal b)) \<and>
   (valid_board b \<and> solvable b = Inr True \<and>
    (ignore_warning \<or> \<not> (width b > 3 \<or> height b > 3)) \<and>
    apply_moves True b ds = Some (goal b) \<longrightarrow>
      (\<exists>q. solve b ignore_warning give = Some (Inr (Path q)) \<or>
           (\<exists>n. solve b ignore_warning give = Some (Inr (PathAndMax q n)))))"
proof (rule conjI)
  show "solve b ignore_warning give = Some (Inr r) \<and> (r = Path p \<or> r = PathAndMax p k) \<longrightarrow>
      p \<noteq> [] \<and> hd p = \<lparr>move_direction = None, move_board = b\<rparr> \<and>
      successively (\<lambda>m m'. reflects_move (move_board m) m') p \<and>
      board (move_board (last p)) = board (goal b)"
    using solve_path_shape by blast
next
  show "valid_board b \<and> solvable b = Inr True \<and>
    (ignore_warning \<or> \<not> (width b > 3 \<or> height b > 3)) \<and>
    apply_moves True b ds = Some (goal b) \<longrightarrow>
      (\<exists>q. solve b ignore_warning give = Some (Inr (Path q)) \<or>
           (\<exists>n. solve b ignore_warning give = Some (Inr (PathAndMax q n))))"
  proof (rule impI)
    assume a: "valid_board b \<and> solvable b = Inr True \<and>
      (ignore_warning \<or> \<not> (width b > 3 \<or> height b > 3)) \<and>
      apply_moves True b ds = Some (goal b)"
    then have s: "solve b ignore_warning give = solve_search b give"
      by (auto simp: solve_def)
    obtain r' where r': "solve_search b give = Some (Inr r')"
      and nr: "r' = NoResult \<longrightarrow> (\<forall>ds c. apply_moves True b ds = Some c \<longrightarrow>
                                    board c \<noteq> board (goal b))"
      using solve_search_total [of b give] a by blast
    have "r' \<noteq> NoResult" using nr a by blast
    then show "\<exists>q. solve b ignore_warning give = Some (Inr (Path q)) \<or>
           (\<exists>n. solve b ignore_warning give = Some (Inr (PathAndMax q n)))"
      using s r' by (cases r') auto
  qed
qed

section \<open>The guards of solve\<close>

text \<open>
  Claim C4.  \<open>solve\<close> raises \<open>AssertionError\<close> when the board is not solvable, and when
  the board is wider or higher than 3 and \<open>ignore_warning\<close> is not set; in both cases
  the search is not entered.  On a solvable board with \<open>ignore_warning\<close> set, or of
  size at most 3, the result is that of the search, which does not depend on the flag;
  and with the flag set the search runs to its end and raises nothing on every solvable
  board of the data model, of whatever size.
\<close>

theorem solve_preconditions:
  "(solvable b = Inr False \<longrightarrow> solve b ign give = Some (Inl AssertionError)) \<and>
   (solvable b = Inr v \<and> \<not> ign \<and> (width b > 3 \<or> height b > 3) \<longrightarrow>
      solve b ign give = Some (Inl AssertionError)) \<and>
   (solvable b = Inr True \<and> (ign \<or> \<not> (width b > 3 \<or> height b > 3)) \<longrightarrow>
      solve b ign give = solve_search b give) \<and>
   (valid_board b \<and> solvable b = Inr True \<longrightarrow>
      (\<exists>r. solve b True give = Some (Inr r)))"
proof -
  have "\<exists>r. solve b True give = Some (Inr r)"
    if "valid_board b" "solvable b = Inr True"
    using solve_search_total [OF that(1), of give] that(2) by (auto simp: solve_def)
  then show ?thesis using solve_unsolvable [of b ign give] by (auto simp: solve_def)
qed

lemma solvable_swapped3:
  "solvable \<lparr>height_and_width = 3, board = [2,1,3,4,5,6,7,8,0]\<rparr> = Inr False"
  by code_simp

lemma solvable_goal4:
  "solvable \<lparr>height_and_width = 4,
     board = [1,2,3,4,5,6,7,8,9,10,11,12,13,14,15,0]\<rparr> = Inr True"
  by code_simp

lemma valid_goal4:
  "valid_board \<lparr>height_and_width = 4,
     board = [1,2,3,4,5,6,7,8,9,10,11,12,13,14,15,0]\<rparr>"
  by code_simp

theorem solve_preconditions_witness:
  "solve \<lparr>height_and_width = 3, board = [2,1,3,4,5,6,7,8,0]\<rparr> False False =
     Some (Inl AssertionError) \<and>
   solve \<lparr>height_and_width = 4,
     board = [1,2,3,4,5,6,7,8,9,10,11,12,13,14,15,0]\<rparr> False False =
     Some (Inl AssertionError) \<and>
   solve \<lparr>height_and_width = 4,
     board = [1,2,3,4,5,6,7,8,9,10,11,12,13,14,15,0]\<rparr> True False =
     solve_search \<lparr>height_and_width = 4,
       board = [1,2,3,4,5,6,7,8,9,10,11,12,13,14,15,0]\<rparr> False \<and>
   (\<exists>r. solve \<lparr>height_and_width = 4,
     board = [1,2,3,4,5,6,7,8,9,10,11,12,13,14,15,0]\<rparr> True False = Some (Inr r))"
  using solve_preconditions
          [of "\<lparr>height_and_width = 3, board = [2,1,3,4,5,6,7,8,0]\<rparr>" False False False]
        solve_preconditions
          [of "\<lparr>height_and_width = 4, board = [1,2,3,4,5,6,7,8,9,10,11,12,13,14,15,0]\<rparr>"
              False False True]
        solve_preconditions
          [of "\<lparr>height_and_width = 4, board = [1,2,3,4,5,6,7,8,9,10,11,12,13,14,15,0]\<rparr>"
              True False True]
        solvable_swapped3 solvable_goal4 valid_goal4
  by (simp add: width_def)

section \<open>The length of the solution\<close>

text \<open>
  Claim C1 fails on the code.  On the board 1 3 5 / 4 0 8 / 7 6 2 \<open>solve\<close> returns
  the twelve moves d r u l d r u u l d r d, while the ten legal moves r d l u r u l d r d
  lead from the same board to the goal.
\<close>

theorem solve_not_minimal:
  "(case solve \<lparr>height_and_width = 3, board = [1,3,5,4,0,8,7,6,2]\<rparr> False False of
      Some (Inr (Path p)) \<Rightarrow>
        map move_direction p =
          [None, Some ''d'', Some ''r'', Some ''u'', Some ''l'', Some ''d'', Some ''r'',
           Some ''u'', Some ''u'', Some ''l'', Some ''d'', Some ''r'', Some ''d''] \<and>
        move_board (last p) = \<lparr>height_and_width = 3, board = [1,2,3,4,5,6,7,8,0]\<rparr>
    | _ \<Rightarrow> False) \<and>
   apply_moves True \<lparr>height_and_width = 3, board = [1,3,5,4,0,8,7,6,2]\<rparr>
     [''r'', ''d'', ''l'', ''u'', ''r'', ''u'', ''l'', ''d'', ''r'', ''d''] =
     Some \<lparr>height_and_width = 3, board = [1,2,3,4,5,6,7,8,0]\<rparr> \<and>
   goal \<lparr>height_and_width = 3, board = [1,3,5,4,0,8,7,6,2]\<rparr> =
     \<lparr>height_and_width = 3, board = [1,2,3,4,5,6,7,8,0]\<rparr>"
  by code_simp

section \<open>The visited set\<close>

text \<open>
  Claim C9 fails on the code.  The start board is pushed on the queue but not added to
  \<open>visited\<close>.  On the board 1 2 3 / 4 5 6 / 0 7 8 the second iteration of the loop
  generates the start board again, as the successor to the left of the board popped,
  does not find it in \<open>visited\<close>, and pushes it a second time, as item 4 with
  \<open>g = 2\<close>.
\<close>

theorem start_board_enqueued_twice:
  "(case item \<lparr>height_and_width = 3, board = [1,2,3,4,5,6,7,8,0]\<rparr> 0 None
           \<lparr>height_and_width = 3, board = [1,2,3,4,5,6,0,7,8]\<rparr> (-1) of
      Inr start_item \<Rightarrow>
        [1,2,3,4,5,6,0,7,8] \<notin> st_visited (init_state start_item False) \<and>
        map (\<lambda>i. board (item_board i)) (st_open (init_state start_item False)) =
          [[1,2,3,4,5,6,0,7,8]] \<and>
        (case solve_step \<lparr>height_and_width = 3, board = [1,2,3,4,5,6,7,8,0]\<rparr> start_item False
                (init_state start_item False) of
           Some (Inr (Continue s1)) \<Rightarrow>
             (case solve_step \<lparr>height_and_width = 3, board = [1,2,3,4,5,6,7,8,0]\<rparr>
                     start_item False s1 of
                Some (Inr (Continue s2)) \<Rightarrow>
                  map_option (\<lambda>i. (board (item_board i), item_g i)) (st_item_by_idx s2 0) =
                    Some ([1,2,3,4,5,6,0,7,8], 0) \<and>
                  map_option (\<lambda>i. (board (item_board i), item_g i)) (st_item_by_idx s2 4) =
                    Some ([1,2,3,4,5,6,0,7,8], 2) \<and>
                  map (\<lambda>i. board (item_board i)) (st_open s2) =
                    [[1,2,3,0,5,6,4,7,8], [1,2,3,4,0,6,7,5,8], [1,2,3,4,5,6,0,7,8],
                     [1,2,3,4,5,6,7,8,0]]
              | _ \<Rightarrow> False)
         | _ \<Rightarrow> False)
    | Inl _ \<Rightarrow> False)"
  by code_simp

end
